theory Spec2Isabelle
  imports Complex_Main "HOL-Library.Char_ord" "HOL-Library.List_Lexorder"
    "HOL-Library.AList" "HOL-Library.Sublist"
begin

section \<open>VSPipeline utilities: a shallow embedding of \<open>vspipeline_utilities.py\<close>\<close>

text \<open>
  Python strings are modelled as \<open>string\<close>; their order (\<open>sorted\<close>, \<open>min\<close>) is the
  lexicographic order on characters, which \<open>Char_ord\<close> and \<open>List_Lexorder\<close> provide.
  Exceptions are values of \<open>py_error\<close>; a function that may raise returns
  \<open>py_error + 'a\<close>.
\<close>

datatype py_error =
  AttributeError | TypeError | KeyError | ValueError | OverflowError | StopIteration
  | JSONDecodeError | OSError

subsection \<open>CNV state classification (\<open>update_cnv_file\<close>, the per-row \<open>try\<close> block)\<close>

text \<open>
  The value of \<open>float(fields[cn_index])\<close>. A finite double is the rational number it
  denotes; \<open>float\<close> also accepts the spellings of infinity and of not-a-number.
\<close>

datatype py_float = Finite rat | PosInf | NegInf | NaN

text \<open>
  Python's \<open>round\<close> with one argument: the nearest integer, a tie going to the even
  neighbour. It raises \<open>OverflowError\<close> on an infinity and \<open>ValueError\<close> on
  not-a-number.
\<close>

definition round_half_even :: "rat \<Rightarrow> int" where
  "round_half_even x =
     (let f = \<lfloor>x\<rfloor>; d = x - of_int f
      in if d < 1 / 2 then f
         else if 1 / 2 < d then f + 1
         else if even f then f else f + 1)"

fun py_round :: "py_float \<Rightarrow> py_error + int" where
  "py_round (Finite x) = Inr (round_half_even x)"
| "py_round PosInf = Inl OverflowError"
| "py_round NegInf = Inl OverflowError"
| "py_round NaN = Inl ValueError"

definition cnv_state :: "int \<Rightarrow> string" where
  "cnv_state cn_int =
     (if cn_int = 2 then ''Normal''
      else if cn_int = 0 then ''Deletion''
      else if cn_int = 1 then ''Het Deletion''
      else if cn_int \<ge> 3 then ''Duplicate''
      else ''?'')"

text \<open>
  What happens to one data row: the state is appended to the row, or the row is skipped
  with a warning (\<open>except ValueError\<close>), or another exception reaches the outer handler
  of \<open>update_cnv_file\<close>, which exits with status 1.
\<close>

datatype row_outcome = Appended string | Skipped | Exit1

text \<open>
  The argument is the outcome of \<open>float(fields[cn_index])\<close>: \<open>Inl ValueError\<close> for a
  field that is no number.
\<close>

definition cnv_row :: "py_error + py_float \<Rightarrow> row_outcome" where
  "cnv_row parsed =
     (case parsed of
        Inl e \<Rightarrow> (if e = ValueError then Skipped else Exit1)
      | Inr cn_value \<Rightarrow>
          (case py_round cn_value of
             Inl e \<Rightarrow> (if e = ValueError then Skipped else Exit1)
           | Inr cn_int \<Rightarrow> Appended (cnv_state cn_int)))"

subsection \<open>Strings and sets\<close>

text \<open>
  \<open>str.strip()\<close> removes leading and trailing whitespace. A \<open>char\<close> is a code point
  below 256, and the whitespace class is the one of Python's \<open>str.isspace\<close> on that range:
  tab, line feed, vertical tab, form feed, carriage return, the separators \<open>0x1C\<close> to
  \<open>0x1F\<close>, the space, the next-line control \<open>0x85\<close> and the no-break space \<open>0xA0\<close>.
\<close>

definition is_space :: "char \<Rightarrow> bool" where
  "is_space c = (c \<in> set [CHR 0x09, CHR 0x0A, CHR 0x0B, CHR 0x0C, CHR 0x0D,
                          CHR 0x1C, CHR 0x1D, CHR 0x1E, CHR 0x1F, CHR '' '',
                          CHR 0x85, CHR 0xA0])"

definition strip :: "string \<Rightarrow> string" where
  "strip s = rev (dropWhile is_space (rev (dropWhile is_space s)))"

text \<open>
  A Python \<open>set\<close> of strings is a list without repetition; \<open>set.add\<close> appends an
  element that is not there yet. The order of the list is never observed except by
  iteration, and the iteration order is a parameter where the source iterates a set.
\<close>

definition set_add :: "'a \<Rightarrow> 'a list \<Rightarrow> 'a list" where
  "set_add x xs = (if x \<in> set xs then xs else xs @ [x])"

subsection \<open>Group Resolver: \<open>_parse_sample_file\<close>\<close>

text \<open>
  The metadata table is the list of rows that \<open>csv.reader\<close> yields (the header row
  first). \<open>sample_data\<close> is a \<open>dict\<close>: an association list in insertion order whose
  keys are distinct; assigning to a key that exists replaces the value in place
  (\<open>AList.update\<close>). \<open>next(reader)\<close> on a table without any row raises
  \<open>StopIteration\<close>.
\<close>

type_synonym sample_data = "(string \<times> string list) list"

definition row_metadata :: "string list \<Rightarrow> string list" where
  "row_metadata rest = map strip (filter (\<lambda>v. v \<noteq> [] \<and> strip v \<noteq> []) rest)"

definition parse_row :: "string list \<Rightarrow> sample_data \<times> string list \<Rightarrow> sample_data \<times> string list" where
  "parse_row row st =
     (case row of
        [] \<Rightarrow> st
      | c0 # rest \<Rightarrow>
          (let sample_name = strip c0
           in if sample_name = [] then st
              else (AList.update sample_name (row_metadata rest) (fst st),
                    set_add sample_name (snd st))))"

definition parse_sample_file :: "string list list \<Rightarrow> py_error + (sample_data \<times> string list)" where
  "parse_sample_file rows =
     (case rows of
        [] \<Rightarrow> Inl StopIteration
      | header # body \<Rightarrow> Inr (fold parse_row body ([], [])))"

subsection \<open>Group Resolver: \<open>_find_connected_samples\<close>\<close>

text \<open>
  The state of the traversal: \<open>current_group\<close>, \<open>processed_samples\<close> and the queue
  \<open>to_process\<close>. \<open>scan_others\<close> is the first \<open>for\<close> loop of the \<open>while\<close> body (over
  \<open>sample_data.items()\<close>), \<open>scan_own\<close> the second (over the current sample's own
  metadata values); \<open>bfs_loop\<close> is the \<open>while to_process\<close> loop, which pops the head
  of the queue. The loop terminates because every sample that enters the queue has
  just been marked processed, and only samples of the table can be marked.
\<close>

type_synonym bfs_state = "string list \<times> string list \<times> string list"

fun scan_others :: "string \<Rightarrow> sample_data \<Rightarrow> bfs_state \<Rightarrow> bfs_state" where
  "scan_others current_sample [] st = st"
| "scan_others current_sample ((other_sample, metadata_values) # rest) (g, p, q) =
     (if other_sample \<in> set p then scan_others current_sample rest (g, p, q)
      else if current_sample \<in> set metadata_values
        then scan_others current_sample rest
               (set_add other_sample g, set_add other_sample p, q @ [other_sample])
      else scan_others current_sample rest (g, p, q))"

fun scan_own :: "string list \<Rightarrow> string list \<Rightarrow> bfs_state \<Rightarrow> bfs_state" where
  "scan_own all_samples [] st = st"
| "scan_own all_samples (metadata_value # rest) (g, p, q) =
     (if metadata_value \<in> set all_samples \<and> metadata_value \<notin> set p
        then scan_own all_samples rest
               (set_add metadata_value g, set_add metadata_value p, q @ [metadata_value])
      else scan_own all_samples rest (g, p, q))"

definition dict_get :: "('k \<times> 'v) list \<Rightarrow> 'k \<Rightarrow> 'v \<Rightarrow> 'v" where
  "dict_get d k dflt = (case map_of d k of Some v \<Rightarrow> v | None \<Rightarrow> dflt)"

function bfs_loop :: "sample_data \<Rightarrow> string list \<Rightarrow> bfs_state \<Rightarrow> bfs_state" where
  "bfs_loop sd alls (g, p, []) = (g, p, [])"
| "bfs_loop sd alls (g, p, current_sample # q) =
     bfs_loop sd alls
       (scan_own alls (dict_get sd current_sample [])
          (scan_others current_sample sd (g, p, q)))"
  by pat_completeness auto
termination
proof (relation "measure (\<lambda>(sd, alls, st).
    card ((fst ` set sd \<union> set alls) - set (fst (snd st))) + length (snd (snd st)))")
  show "wf (measure (\<lambda>(sd :: sample_data, alls, st :: bfs_state).
    card ((fst ` set sd \<union> set alls) - set (fst (snd st))) + length (snd (snd st))))"
    by simp
next
  fix sd :: sample_data and alls g p :: "string list" and c :: string and q :: "string list"
  let ?U = "fst ` set sd \<union> set alls"
  have fin: "finite ?U" by simp
  have step: "card (?U - insert x P) + 1 = card (?U - P)" if "x \<in> ?U" "x \<notin> P" for x P
  proof -
    have mem: "x \<in> ?U - P" using that by simp
    have eq: "?U - insert x P = (?U - P) - {x}" by auto
    have "finite (?U - P)" using fin by simp
    then have "card (?U - P) = Suc (card ((?U - P) - {x}))"
      using mem by (rule card.remove)
    then show ?thesis by (simp add: eq)
  qed
  have others: "card (?U - set (fst (snd (scan_others c sd' (g', p', q')))))
        + length (snd (snd (scan_others c sd' (g', p', q'))))
      = card (?U - set p') + length q'" if "fst ` set sd' \<subseteq> ?U" for sd' g' p' q'
    using that
  proof (induction sd' arbitrary: g' p' q')
    case Nil
    then show ?case by simp
  next
    case (Cons a sd')
    obtain o' md where a: "a = (o', md)" by (cases a)
    from Cons.prems have sub: "fst ` set sd' \<subseteq> ?U" and oU: "o' \<in> ?U"
      by (auto simp: a)
    show ?case
      using Cons.IH [OF sub] step [OF oU, of "set p'"]
      by (auto simp: a set_add_def)
  qed
  have own: "card (?U - set (fst (snd (scan_own alls vs (g', p', q')))))
        + length (snd (snd (scan_own alls vs (g', p', q'))))
      = card (?U - set p') + length q'" for vs g' p' q'
  proof (induction vs arbitrary: g' p' q')
    case Nil
    then show ?case by simp
  next
    case (Cons v vs)
    show ?case
    proof (cases "v \<in> set alls \<and> v \<notin> set p'")
      case True
      then have vU: "v \<in> ?U" by auto
      show ?thesis
        using True Cons.IH step [OF vU, of "set p'"]
        by (auto simp: set_add_def)
    next
      case False
      then show ?thesis using Cons.IH by auto
    qed
  qed
  obtain g1 p1 q1 where s1: "scan_others c sd (g, p, q) = (g1, p1, q1)"
    by (cases "scan_others c sd (g, p, q)") auto
  have m1: "card (?U - set p1) + length q1 = card (?U - set p) + length q"
    using others [of sd g p q] by (simp add: s1)
  have m2: "card (?U - set (fst (snd (scan_own alls (dict_get sd c []) (g1, p1, q1)))))
        + length (snd (snd (scan_own alls (dict_get sd c []) (g1, p1, q1))))
      = card (?U - set p1) + length q1"
    using own [of "dict_get sd c []" g1 p1 q1] .
  show "((sd, alls, scan_own alls (dict_get sd c []) (scan_others c sd (g, p, q))),
         (sd, alls, g, p, c # q))
        \<in> measure (\<lambda>(sd, alls, st).
            card ((fst ` set sd \<union> set alls) - set (fst (snd st))) + length (snd (snd st)))"
    using m1 m2 by (simp add: s1)
qed

text \<open>
  \<open>_find_connected_samples\<close> returns the group; the set \<open>processed_samples\<close> it
  mutates is returned with it.
\<close>

definition find_connected_samples ::
  "string \<Rightarrow> sample_data \<Rightarrow> string list \<Rightarrow> string list \<Rightarrow> string list \<times> string list" where
  "find_connected_samples sample sd alls processed =
     (case bfs_loop sd alls ([sample], set_add sample processed, [sample]) of
        (current_group, processed', _) \<Rightarrow> (current_group, processed'))"

subsection \<open>Group Resolver: \<open>find_sample_relationships\<close>\<close>

text \<open>
  \<open>resolve_groups\<close> is the loop \<open>for sample in all_samples\<close> of the non-cohort branch;
  its third argument is the order in which Python happens to iterate the set.
  \<open>relationships\<close> is a \<open>dict\<close> keyed by \<open>min(current_group)\<close>.
\<close>

fun resolve_groups ::
  "sample_data \<Rightarrow> string list \<Rightarrow> string list \<Rightarrow> string list
     \<Rightarrow> (string \<times> string list) list \<Rightarrow> (string \<times> string list) list" where
  "resolve_groups sd alls [] processed relationships = relationships"
| "resolve_groups sd alls (sample # rest) processed relationships =
     (if sample \<in> set processed then resolve_groups sd alls rest processed relationships
      else (case find_connected_samples sample sd alls processed of
              (current_group, processed') \<Rightarrow>
                resolve_groups sd alls rest processed'
                  (AList.update (Min (set current_group)) (sort current_group) relationships)))"

text \<open>
  \<open>_output_sample_groups\<close> writes one line per group, in the order of the sorted keys;
  the model returns the groups in that order.
\<close>

definition output_sample_groups :: "(string \<times> string list) list \<Rightarrow> string list list" where
  "output_sample_groups relationships =
     List.map_filter (map_of relationships) (sort (map fst relationships))"

text \<open>
  \<open>set_order\<close> stands for the iteration order of \<open>all_samples\<close>. An exception inside
  the \<open>try\<close> block makes the program exit with status 1 and write nothing: \<open>Inl\<close>.
\<close>

definition find_sample_relationships ::
  "(string list \<Rightarrow> string list) \<Rightarrow> string list list \<Rightarrow> bool \<Rightarrow> py_error + string list list" where
  "find_sample_relationships set_order rows cohort =
     (case parse_sample_file rows of
        Inl e \<Rightarrow> Inl e
      | Inr (sd, alls) \<Rightarrow>
          Inr (output_sample_groups
                 (if cohort then (if alls \<noteq> [] then [(''cohort'', sort alls)] else [])
                  else resolve_groups sd alls (set_order alls) [] [])))"

definition example_table :: "string list list" where
  "example_table =
     [[''Sample'', ''Mother'', ''Father''],
      [''A'', ''B'', ''''],
      [''B'', ''C''],
      [],
      ['' C ''],
      [''D'', ''x''],
      [''A'', ''D'']]"

subsection \<open>Invariants of the Group Resolver\<close>

text \<open>
  \<open>grp_inv\<close>: during one traversal started at \<open>s\<close> with processed set \<open>p0\<close>, the
  processed set is \<open>p0\<close> plus the group, and the group is new, without repetition and
  made of samples of the table. \<open>rel_inv\<close>: the groups recorded so far are keyed by a
  member each, have distinct keys, are pairwise disjoint and cover exactly the processed
  samples.
\<close>

definition grp_inv :: "string \<Rightarrow> string list \<Rightarrow> string set \<Rightarrow> string list \<Rightarrow> string list \<Rightarrow> bool" where
  "grp_inv s p0 U g p \<longleftrightarrow>
     set p = set p0 \<union> set g \<and> set g \<inter> set p0 = {} \<and> set g \<subseteq> U \<and> distinct g \<and> s \<in> set g"

definition rel_inv :: "string set \<Rightarrow> (string \<times> string list) list \<Rightarrow> string list \<Rightarrow> bool" where
  "rel_inv U rel p \<longleftrightarrow>
     set p = \<Union> (set ` snd ` set rel)
     \<and> distinct (map fst rel)
     \<and> (\<forall>(k, g) \<in> set rel. k \<in> set g \<and> set g \<subseteq> U \<and> distinct g)
     \<and> (\<forall>(k, g) \<in> set rel. \<forall>(k', g') \<in> set rel. k \<noteq> k' \<longrightarrow> set g \<inter> set g' = {})"

text \<open>The data rows whose column 0, stripped, is the name \<open>n\<close>.\<close>

definition rows_named :: "string \<Rightarrow> string list list \<Rightarrow> string list list" where
  "rows_named n body = filter (\<lambda>row. row \<noteq> [] \<and> strip (hd row) = n) body"

text \<open>
  Two dictionaries with the same keys in the same order that agree on every key but
  \<open>n\<close>; two parser states that agree in this sense.
\<close>

definition sd_agree :: "string \<Rightarrow> sample_data \<Rightarrow> sample_data \<Rightarrow> bool" where
  "sd_agree n sd1 sd2 \<longleftrightarrow>
     list_all2 (\<lambda>a b. fst a = fst b \<and> (fst a \<noteq> n \<longrightarrow> snd a = snd b)) sd1 sd2"

definition st_agree ::
  "string \<Rightarrow> sample_data \<times> string list \<Rightarrow> sample_data \<times> string list \<Rightarrow> bool" where
  "st_agree n st1 st2 \<longleftrightarrow>
     snd st1 = snd st2 \<and> sd_agree n (fst st1) (fst st2) \<and> distinct (map fst (fst st1))"

subsection \<open>Manifest documents\<close>

text \<open>
  A Manifest Document as \<open>json.load\<close> returns it: a \<open>dict\<close> whose \<open>samples\<close> entry, when
  there is one, maps a sample name to a \<open>dict\<close> from file type to a list of paths. The
  dictionaries are association lists in insertion order. Other top-level entries are
  carried along untouched (\<open>other_fields\<close>). Documents of another shape are outside the
  data model of the manifest claims.
\<close>

type_synonym sample_info = "(string \<times> string list) list"
type_synonym samples_dict = "(string \<times> sample_info) list"

record 'x manifest =
  samples :: "samples_dict option"
  other_fields :: "(string \<times> 'x) list"

definition file_types :: "string list" where
  "file_types = [''multiverse'', ''cnv'', ''bnd'', ''region'']"

definition empty_entry :: sample_info where
  "empty_entry = [(''multiverse'', []), (''cnv'', []), (''bnd'', []), (''region'', [])]"

subsection \<open>Manifest Merger: \<open>_merge_vspipeline_json_files\<close>\<close>

text \<open>
  \<open>merge_file_type\<close> is the innermost loop (\<open>for file_path in files\<close>, appending what is
  not there yet, into \<open>merged_data[sample_name][file_type]\<close>); \<open>merge_sample\<close> the body of
  the loop over \<open>samples.items()\<close>; \<open>merge_document\<close> the body of the loop over the files,
  where a file that cannot be opened or decoded (\<open>Inl\<close>) is skipped with a warning.
\<close>

definition merge_file_type :: "string \<Rightarrow> sample_info \<Rightarrow> string \<Rightarrow> samples_dict \<Rightarrow> samples_dict" where
  "merge_file_type sample_name sample_info file_type merged_data =
     AList.map_entry sample_name
       (AList.map_entry file_type (fold set_add (dict_get sample_info file_type [])))
       merged_data"

definition merge_sample :: "string \<times> sample_info \<Rightarrow> samples_dict \<Rightarrow> samples_dict" where
  "merge_sample entry merged_data =
     (case entry of (sample_name, sample_info) \<Rightarrow>
        fold (merge_file_type sample_name sample_info) file_types
          (if sample_name \<in> fst ` set merged_data then merged_data
           else AList.update sample_name empty_entry merged_data))"

definition merge_document :: "py_error + 'x manifest \<Rightarrow> samples_dict \<Rightarrow> samples_dict" where
  "merge_document loaded merged_data =
     (case loaded of
        Inl e \<Rightarrow> merged_data
      | Inr data \<Rightarrow>
          fold merge_sample (case samples data of None \<Rightarrow> [] | Some s \<Rightarrow> s) merged_data)"

definition merge_vspipeline_json_files :: "(py_error + 'x manifest) list \<Rightarrow> samples_dict" where
  "merge_vspipeline_json_files json_files = fold merge_document json_files []"

text \<open>
  The words of the specification: \<open>dedup_first\<close> keeps the first occurrence of every
  element; \<open>all_paths\<close> lists the paths of one sample and one file type over the documents
  in the order supplied; \<open>document_samples\<close> are the sample names of a document;
  \<open>merged_list\<close> reads \<open>merged_data[s][t]\<close>.
\<close>

fun dedup_first :: "'a list \<Rightarrow> 'a list" where
  "dedup_first [] = []"
| "dedup_first (x # xs) = x # filter (\<lambda>y. y \<noteq> x) (dedup_first xs)"

definition document_paths :: "string \<Rightarrow> string \<Rightarrow> py_error + 'x manifest \<Rightarrow> string list" where
  "document_paths s t loaded =
     (case loaded of
        Inl e \<Rightarrow> []
      | Inr data \<Rightarrow>
          concat (map (\<lambda>(sample_name, sample_info).
                          if sample_name = s then dict_get sample_info t [] else [])
                      (case samples data of None \<Rightarrow> [] | Some ss \<Rightarrow> ss)))"

definition all_paths :: "string \<Rightarrow> string \<Rightarrow> (py_error + 'x manifest) list \<Rightarrow> string list" where
  "all_paths s t json_files = concat (map (document_paths s t) json_files)"

definition document_samples :: "py_error + 'x manifest \<Rightarrow> string set" where
  "document_samples loaded =
     (case loaded of Inl e \<Rightarrow> {}
      | Inr data \<Rightarrow> fst ` set (case samples data of None \<Rightarrow> [] | Some ss \<Rightarrow> ss))"

definition merged_list :: "samples_dict \<Rightarrow> string \<Rightarrow> string \<Rightarrow> string list option" where
  "merged_list merged_data s t =
     (case map_of merged_data s of None \<Rightarrow> None | Some info \<Rightarrow> map_of info t)"

text \<open>
  Invariant of the merge: every entry has the four file types as keys, and the list of
  a sample and a file type is the deduplicated list of the paths \<open>A s t\<close> seen so far.
\<close>

definition wf_merged :: "samples_dict \<Rightarrow> bool" where
  "wf_merged m \<longleftrightarrow> (\<forall>(s, info) \<in> set m. map fst info = file_types)"

definition rep :: "samples_dict \<Rightarrow> (string \<Rightarrow> string \<Rightarrow> string list) \<Rightarrow> bool" where
  "rep m A \<longleftrightarrow>
     wf_merged m
     \<and> (\<forall>s. \<forall>t \<in> set file_types.
           (s \<in> fst ` set m \<longrightarrow> merged_list m s t = Some (dedup_first (A s t)))
           \<and> (s \<notin> fst ` set m \<longrightarrow> A s t = []))"

definition entries_paths :: "string \<Rightarrow> string \<Rightarrow> samples_dict \<Rightarrow> string list" where
  "entries_paths s t ss =
     concat (map (\<lambda>(sample_name, sample_info).
                    if sample_name = s then dict_get sample_info t [] else []) ss)"

definition example_documents :: "(py_error + unit manifest) list" where
  "example_documents =
     [Inr \<lparr>samples = Some [(''S1'', [(''cnv'', [''/a/x.vcf'', ''/a/y.vcf''])])],
           other_fields = []\<rparr>,
      Inl JSONDecodeError,
      Inr \<lparr>samples = Some [(''S1'', [(''cnv'', [''/a/z.vcf'', ''/a/x.vcf'']),
                                    (''bnd'', [''/b/1.vcf''])]),
                           (''S2'', [])],
           other_fields = []\<rparr>]"

subsection \<open>Manifest Store: \<open>update_vspipeline_json\<close> with a single writer\<close>

text \<open>
  The file system is the output directory and the scratch directory (two different
  directories), each a map from file name to document. With one sequential writer every
  lock is acquired at the first attempt, so \<open>_safe_read_json_file\<close> returns the document
  (or \<open>{}\<close> when the file is missing) and \<open>_safe_write_json_file\<close> overwrites it.
  \<open>update_vspipeline_json\<close> validates the file type, stages the persisted document into
  scratch when it exists, reads the scratch copy, creates the missing \<open>samples\<close> and sample
  entries, appends the path when it is not in the list, writes scratch and publishes.
  \<open>data['samples'][sample_name][file_type]\<close> raises \<open>KeyError\<close> when an existing sample
  entry lacks the file type; every exception ends in \<open>sys.exit(1)\<close>.
\<close>

record 'x fs =
  output_dir :: "string \<Rightarrow> 'x manifest option"
  scratch_dir :: "string \<Rightarrow> 'x manifest option"

datatype exit_status = Completed | SysExit1

definition json_filename :: "string \<Rightarrow> string \<Rightarrow> string" where
  "json_filename sample_name task_name = sample_name @ ''_'' @ task_name @ ''_vspipeline_inputs.json''"

definition safe_read_json_file :: "(string \<Rightarrow> 'x manifest option) \<Rightarrow> string \<Rightarrow> 'x manifest" where
  "safe_read_json_file dir file_path =
     (case dir file_path of
        None \<Rightarrow> \<lparr>samples = None, other_fields = []\<rparr>
      | Some data \<Rightarrow> data)"

definition samples_of :: "'x manifest \<Rightarrow> samples_dict" where
  "samples_of data = (case samples data of None \<Rightarrow> [] | Some ss \<Rightarrow> ss)"

definition update_vspipeline_json ::
  "string \<Rightarrow> string \<Rightarrow> string \<Rightarrow> string \<Rightarrow> 'x fs \<Rightarrow> exit_status \<times> 'x fs" where
  "update_vspipeline_json sample_name file_path file_type task_name fs =
     (if file_type \<notin> set file_types then (SysExit1, fs)
      else
        let name = json_filename sample_name task_name;
            fs1 = (case output_dir fs name of
                     Some d \<Rightarrow> fs\<lparr>scratch_dir := (scratch_dir fs)(name \<mapsto> d)\<rparr>
                   | None \<Rightarrow> fs);
            data = safe_read_json_file (scratch_dir fs1) name;
            samples0 = samples_of data;
            samples1 = (if sample_name \<in> fst ` set samples0 then samples0
                        else AList.update sample_name empty_entry samples0)
        in case merged_list samples1 sample_name file_type of
             None \<Rightarrow> (SysExit1, fs1)
           | Some file_list \<Rightarrow>
               let samples2 = AList.map_entry sample_name
                                (AList.map_entry file_type (set_add file_path)) samples1;
                   data' = data\<lparr>samples := Some samples2\<rparr>
               in (Completed,
                   \<lparr>output_dir = (output_dir fs1)(name \<mapsto> data'),
                    scratch_dir = (scratch_dir fs1)(name \<mapsto> data')\<rparr>))"

text \<open>
  A sequence of appends to the document of one sample and task, one invocation after
  the other. \<open>stored_list\<close> is the list in the persisted document; \<open>staged_list\<close> is the
  list the next append starts from: that of the persisted document, or of a scratch file
  left behind when nothing is persisted, or the empty list (\<open>None\<close> when the sample entry
  exists without the file type).
\<close>

fun append_all ::
  "string \<Rightarrow> string \<Rightarrow> string \<Rightarrow> string list \<Rightarrow> 'x fs \<Rightarrow> exit_status list \<times> 'x fs" where
  "append_all sample_name file_type task_name [] fs = ([], fs)"
| "append_all sample_name file_type task_name (file_path # rest) fs =
     (case update_vspipeline_json sample_name file_path file_type task_name fs of
        (status, fs1) \<Rightarrow>
          (case append_all sample_name file_type task_name rest fs1 of
             (statuses, fs2) \<Rightarrow> (status # statuses, fs2)))"

definition stored_list :: "'x fs \<Rightarrow> string \<Rightarrow> string \<Rightarrow> string \<Rightarrow> string list option" where
  "stored_list fs sample_name task_name file_type =
     (case output_dir fs (json_filename sample_name task_name) of
        None \<Rightarrow> None
      | Some d \<Rightarrow> merged_list (samples_of d) sample_name file_type)"

definition staged_list :: "'x fs \<Rightarrow> string \<Rightarrow> string \<Rightarrow> string \<Rightarrow> string list option" where
  "staged_list fs sample_name task_name file_type =
     (let name = json_filename sample_name task_name;
          staged = (case output_dir fs name of Some d \<Rightarrow> Some d | None \<Rightarrow> scratch_dir fs name)
      in case staged of
           None \<Rightarrow> Some []
         | Some d \<Rightarrow>
             (case map_of (samples_of d) sample_name of
                None \<Rightarrow> Some []
              | Some info \<Rightarrow> map_of info file_type))"

definition example_fs :: "unit fs" where
  "example_fs =
     \<lparr>output_dir = Map.empty(json_filename ''S1'' ''hiphase'' \<mapsto>
         \<lparr>samples = Some [(''S1'', [(''multiverse'', []), (''cnv'', [''/a/x.vcf'']),
                                  (''bnd'', []), (''region'', [])])],
          other_fields = []\<rparr>),
      scratch_dir = Map.empty\<rparr>"

subsection \<open>Batch Descriptor Generator: \<open>_generate_vsbatch_content\<close>\<close>

text \<open>
  \<open>join\<close> is \<open>str.join\<close>, \<open>basename\<close> is \<open>os.path.basename\<close>. The three dictionaries are
  association lists: the merged manifest, \<open>import_algorithms\<close> and \<open>table_ids\<close> (whose
  values are \<open>None\<close> or a string). \<open>table_ids.get(c) or 'Table1'\<close> takes the default for
  every falsy value: a missing key, \<open>None\<close> and the empty string. \<open>import_block\<close> is one
  of the three conditional blocks. The function returns the lines joined by newlines;
  \<open>generate_vsbatch_lines\<close> is the list \<open>vsbatch_lines\<close> before the join.
\<close>

fun join :: "string \<Rightarrow> string list \<Rightarrow> string" where
  "join sep [] = []"
| "join sep [x] = x"
| "join sep (x # y # ys) = x @ sep @ join sep (y # ys)"

definition basename :: "string \<Rightarrow> string" where
  "basename p = rev (takeWhile (\<lambda>c. c \<noteq> CHR ''/'') (rev p))"

definition dquote :: string where
  "dquote = [CHR 0x22]"

definition quoted_files :: "string list \<Rightarrow> string" where
  "quoted_files files = join '','' (map (\<lambda>f. dquote @ f @ dquote) files)"

definition group_files :: "string list \<Rightarrow> samples_dict \<Rightarrow> string \<Rightarrow> string list" where
  "group_files sample_group sample_data file_type =
     concat (map (\<lambda>sample_name.
                    case map_of sample_data sample_name of
                      None \<Rightarrow> []
                    | Some sample_info \<Rightarrow> dict_get sample_info file_type [])
                 sample_group)"

definition table_id_or_default :: "(string \<times> string option) list \<Rightarrow> string \<Rightarrow> string" where
  "table_id_or_default table_ids category =
     (case map_of table_ids category of
        None \<Rightarrow> ''Table1''
      | Some None \<Rightarrow> ''Table1''
      | Some (Some table_id) \<Rightarrow> (if table_id = [] then ''Table1'' else table_id))"

definition algorithm_flag :: "(string \<times> bool) list \<Rightarrow> string \<Rightarrow> bool" where
  "algorithm_flag import_algorithms category = dict_get import_algorithms category False"

definition import_command :: "string \<Rightarrow> string list \<Rightarrow> string \<Rightarrow> string" where
  "import_command name files table_id =
     name @ '' files='' @ quoted_files files @ '' table_id='' @ dquote @ table_id @ dquote"

definition import_block ::
  "string \<Rightarrow> bool \<Rightarrow> string list \<Rightarrow> string \<Rightarrow> string list" where
  "import_block name available files table_id =
     (if available \<and> files \<noteq> [] then [import_command name files table_id, ''task_wait'']
      else [])"

definition generate_vsbatch_lines ::
  "string \<Rightarrow> string list \<Rightarrow> samples_dict \<Rightarrow> (string \<times> bool) list
     \<Rightarrow> (string \<times> string option) list \<Rightarrow> bool \<Rightarrow> string list" where
  "generate_vsbatch_lines template_file sample_group sample_data import_algorithms table_ids
       overwrite_project =
     (let project_name =
            (if length sample_group < 6 then join ''_'' (sort sample_group)
             else hd sample_group @ ''_cohort'');
          template_name = basename template_file;
          project_create_cmd =
            ''project_create '' @ dquote @ ''AppData/Projects/'' @ project_name @ dquote
              @ '' template='' @ dquote @ template_name @ dquote
              @ (if overwrite_project then '' overwrite=true'' else []);
          multiverse_files = group_files sample_group sample_data ''multiverse'';
          cnv_files = group_files sample_group sample_data ''cnv'';
          bnd_files = group_files sample_group sample_data ''bnd'';
          region_files = group_files sample_group sample_data ''region''
      in [project_create_cmd, ''download_required_sources'']
         @ (if multiverse_files \<noteq> []
            then [''import files='' @ quoted_files multiverse_files
                    @ '' sample_fields_catalog=SampleCatalog'', ''task_wait'']
            else [])
         @ import_block ''update_cnv_import'' (algorithm_flag import_algorithms ''cnv'')
             cnv_files (table_id_or_default table_ids ''cnv'')
         @ import_block ''update_bnd_import'' (algorithm_flag import_algorithms ''breakend'')
             bnd_files (table_id_or_default table_ids ''breakend'')
         @ import_block ''update_region_import'' (algorithm_flag import_algorithms ''region'')
             region_files (table_id_or_default table_ids ''region'')
         @ [''get_task_list'', ''project_save'', ''project_close''])"

definition generate_vsbatch_content ::
  "string \<Rightarrow> string list \<Rightarrow> samples_dict \<Rightarrow> (string \<times> bool) list
     \<Rightarrow> (string \<times> string option) list \<Rightarrow> bool \<Rightarrow> string" where
  "generate_vsbatch_content template_file sample_group sample_data import_algorithms table_ids
       overwrite_project =
     join [CHR 0x0A]
       (generate_vsbatch_lines template_file sample_group sample_data import_algorithms
          table_ids overwrite_project)"

text \<open>
  The three conditional categories: the key of the flag and of the table identifier,
  the file type, and the name of the command. A line is a command of that name when it
  starts with the name and a space.
\<close>

definition categories :: "(string \<times> string \<times> string) list" where
  "categories =
     [(''cnv'', ''cnv'', ''update_cnv_import''),
      (''breakend'', ''bnd'', ''update_bnd_import''),
      (''region'', ''region'', ''update_region_import'')]"

definition is_command :: "string \<Rightarrow> string \<Rightarrow> bool" where
  "is_command name line \<longleftrightarrow> prefix (name @ '' '') line"

text \<open>
  The file list as the specification words it: every path between double quotes, the
  quoted paths separated by commas.
\<close>

fun comma_quoted :: "string list \<Rightarrow> string" where
  "comma_quoted [] = []"
| "comma_quoted [f] = [CHR 0x22] @ f @ [CHR 0x22]"
| "comma_quoted (f # g # fs) = [CHR 0x22] @ f @ [CHR 0x22] @ '','' @ comma_quoted (g # fs)"

definition example_manifest :: samples_dict where
  "example_manifest =
     [(''A'', [(''multiverse'', []), (''cnv'', [''/a/x.cns'', ''/a/y.cns'']), (''bnd'', []),
               (''region'', [])])]"

subsection \<open>Template Resolver: JSON values and the dynamic operations of Python\<close>

text \<open>
  \<open>json.load\<close> yields a value of \<open>json\<close>: \<open>None\<close>, a bool, a number, a string, a list or
  a dict. A number is its exact rational value (the literals \<open>NaN\<close> and \<open>Infinity\<close>, which
  \<open>json.load\<close> also accepts, are outside the model), a string holds code points below
  256, and a dict is the association list of its items in insertion order, with distinct
  keys. The nesting depth is taken to be within the recursion limit of the interpreter.

  \<open>ebind\<close> sequences two steps that may raise, \<open>efold\<close> is a \<open>for\<close> loop whose body may
  raise. \<open>py_get\<close> is \<open>obj.get(key, default)\<close>: only a dict has the method, any other value
  raises \<open>AttributeError\<close>. \<open>truthy\<close> is the truth value of \<open>if uuid\<close>. \<open>hash_key\<close> is the
  key under which a value is found in a dict or a set: lists and dicts are unhashable
  (\<open>TypeError\<close>), and \<open>True\<close>, \<open>1\<close> and \<open>1.0\<close> are the same key. \<open>py_iter\<close> is the sequence
  a \<open>for\<close> loop runs through: the items of a list, the keys of a dict, the characters of
  a string; other values are not iterable (\<open>TypeError\<close>). \<open>as_str\<close> stands for calling a
  string method on a value: only a string has it.
\<close>

datatype json = JNull | JBool bool | JNum rat | JStr string | JArr "json list"
  | JObj "(string \<times> json) list"

definition ebind :: "'e + 'a \<Rightarrow> ('a \<Rightarrow> 'e + 'b) \<Rightarrow> 'e + 'b" where
  "ebind m f = (case m of Inl e \<Rightarrow> Inl e | Inr x \<Rightarrow> f x)"

fun efold :: "('a \<Rightarrow> 's \<Rightarrow> 'e + 's) \<Rightarrow> 'a list \<Rightarrow> 's \<Rightarrow> 'e + 's" where
  "efold f [] s = Inr s"
| "efold f (x # xs) s = ebind (f x s) (efold f xs)"

fun py_get :: "json \<Rightarrow> string \<Rightarrow> json \<Rightarrow> py_error + json" where
  "py_get (JObj kvs) k dflt = Inr (dict_get kvs k dflt)"
| "py_get _ k dflt = Inl AttributeError"

fun truthy :: "json \<Rightarrow> bool" where
  "truthy JNull = False"
| "truthy (JBool b) = b"
| "truthy (JNum r) = (r \<noteq> 0)"
| "truthy (JStr s) = (s \<noteq> [])"
| "truthy (JArr xs) = (xs \<noteq> [])"
| "truthy (JObj kvs) = (kvs \<noteq> [])"

datatype hkey = KNull | KNum rat | KStr string

fun hash_key :: "json \<Rightarrow> py_error + hkey" where
  "hash_key JNull = Inr KNull"
| "hash_key (JBool b) = Inr (KNum (if b then 1 else 0))"
| "hash_key (JNum r) = Inr (KNum r)"
| "hash_key (JStr s) = Inr (KStr s)"
| "hash_key (JArr xs) = Inl TypeError"
| "hash_key (JObj kvs) = Inl TypeError"

fun py_iter :: "json \<Rightarrow> py_error + json list" where
  "py_iter (JArr xs) = Inr xs"
| "py_iter (JObj kvs) = Inr (map (\<lambda>kv. JStr (fst kv)) kvs)"
| "py_iter (JStr s) = Inr (map (\<lambda>c. JStr [c]) s)"
| "py_iter _ = Inl TypeError"

fun as_str :: "json \<Rightarrow> py_error + string" where
  "as_str (JStr s) = Inr s"
| "as_str _ = Inl AttributeError"

subsection \<open>Template Resolver: \<open>_find_axis_uuids\<close> and \<open>_find_table_data_options\<close>\<close>

text \<open>
  \<open>axis_entry\<close> is the body of the loop over \<open>obj['axisUuids']\<close>; the lookup dictionary
  is threaded through the traversal, which visits the values of a dict and the items
  of a list in order. \<open>_find_table_data_options\<close> returns the matching dicts in
  pre-order; the path string, which the caller ignores, is left out.
\<close>

type_synonym axis_lookup = "(hkey \<times> json) list"

definition axis_entry :: "json \<Rightarrow> axis_lookup \<Rightarrow> py_error + axis_lookup" where
  "axis_entry axis lk =
     ebind (py_get axis ''className'' JNull) (\<lambda>class_name.
       if class_name = JStr ''AxisUuidOptions'' then
         ebind (py_get axis ''fields'' (JObj [])) (\<lambda>fields.
         ebind (py_get fields ''uuid'' JNull) (\<lambda>uuid.
           if truthy uuid
           then ebind (hash_key uuid) (\<lambda>k. Inr (AList.update k fields lk))
           else Inr lk))
       else Inr lk)"

fun find_axis_uuids :: "json \<Rightarrow> axis_lookup \<Rightarrow> py_error + axis_lookup"
  and find_axis_uuids_items :: "json list \<Rightarrow> axis_lookup \<Rightarrow> py_error + axis_lookup"
  and find_axis_uuids_values :: "(string \<times> json) list \<Rightarrow> axis_lookup \<Rightarrow> py_error + axis_lookup"
  where
  "find_axis_uuids (JObj kvs) lk =
     ebind (case map_of kvs ''axisUuids'' of
              None \<Rightarrow> Inr lk
            | Some axes \<Rightarrow> ebind (py_iter axes) (\<lambda>items. efold axis_entry items lk))
           (find_axis_uuids_values kvs)"
| "find_axis_uuids (JArr xs) lk = find_axis_uuids_items xs lk"
| "find_axis_uuids JNull lk = Inr lk"
| "find_axis_uuids (JBool b) lk = Inr lk"
| "find_axis_uuids (JNum r) lk = Inr lk"
| "find_axis_uuids (JStr s) lk = Inr lk"
| "find_axis_uuids_items [] lk = Inr lk"
| "find_axis_uuids_items (item # items) lk =
     ebind (find_axis_uuids item lk) (find_axis_uuids_items items)"
| "find_axis_uuids_values [] lk = Inr lk"
| "find_axis_uuids_values ((key, value) # kvs) lk =
     ebind (find_axis_uuids value lk) (find_axis_uuids_values kvs)"

fun find_table_data_options :: "json \<Rightarrow> json list"
  and find_table_data_options_items :: "json list \<Rightarrow> json list"
  and find_table_data_options_values :: "(string \<times> json) list \<Rightarrow> json list" where
  "find_table_data_options (JObj kvs) =
     (if dict_get kvs ''className'' JNull = JStr ''VSTableDataOptions'' then [JObj kvs] else [])
     @ find_table_data_options_values kvs"
| "find_table_data_options (JArr xs) = find_table_data_options_items xs"
| "find_table_data_options JNull = []"
| "find_table_data_options (JBool b) = []"
| "find_table_data_options (JNum r) = []"
| "find_table_data_options (JStr s) = []"
| "find_table_data_options_items [] = []"
| "find_table_data_options_items (item # items) =
     find_table_data_options item @ find_table_data_options_items items"
| "find_table_data_options_values [] = []"
| "find_table_data_options_values ((key, value) # kvs) =
     find_table_data_options value @ find_table_data_options_values kvs"

subsection \<open>Template Resolver: table identifiers of \<open>_parse_template_file\<close>\<close>

text \<open>
  \<open>match_table\<close> is the body of the loop over the table options and \<open>match_axis\<close> the
  body of its inner loop; \<open>matching_tables\<close> holds the three candidate lists.
  \<open>select_table_id\<close> is the body of the loop over the three table types:
  \<open>unique_candidates\<close> removes duplicates keeping the first occurrence, a single candidate
  is selected whatever its type, and with several candidates \<open>startswith\<close> raises
  \<open>AttributeError\<close> on the first one that is no string. \<open>str_replace\<close> is \<open>str.replace\<close>
  (every non-overlapping occurrence, from the left), \<open>isdigit\<close> is \<open>str.isdigit\<close> on code
  points below 256 (the ASCII digits and the superscripts \<open>0xB2\<close>, \<open>0xB3\<close>, \<open>0xB9\<close>), and
  \<open>sorted\<close> orders strings by code point. The warnings printed are left out.
\<close>

record matching_tables =
  m_cnv :: "json list"
  m_breakend :: "json list"
  m_region :: "json list"

definition match_axis ::
  "axis_lookup \<Rightarrow> json \<Rightarrow> json \<Rightarrow> matching_tables \<Rightarrow> py_error + matching_tables" where
  "match_axis lk user_id axis_uuid m =
     ebind (hash_key axis_uuid) (\<lambda>k.
       case map_of lk k of
         None \<Rightarrow> Inr m
       | Some axis_fields \<Rightarrow>
           ebind (py_get axis_fields ''axisType'' (JStr [])) (\<lambda>axis_type.
             if axis_type = JStr ''CNV'' then Inr (m\<lparr>m_cnv := m_cnv m @ [user_id]\<rparr>)
             else if axis_type = JStr ''Breakend''
               then Inr (m\<lparr>m_breakend := m_breakend m @ [user_id]\<rparr>)
             else if axis_type = JStr ''Region''
               then Inr (m\<lparr>m_region := m_region m @ [user_id]\<rparr>)
             else Inr m))"

definition match_table ::
  "axis_lookup \<Rightarrow> json \<Rightarrow> matching_tables \<Rightarrow> py_error + matching_tables" where
  "match_table lk table_option m =
     ebind (py_get table_option ''fields'' (JObj [])) (\<lambda>fields.
     ebind (py_get fields ''userId'' (JStr [])) (\<lambda>user_id.
     ebind (py_get fields ''axisUuidList'' (JArr [])) (\<lambda>axis_uuid_list.
     ebind (py_iter axis_uuid_list) (\<lambda>axis_uuids.
       efold (match_axis lk user_id) axis_uuids m))))"

fun unique_candidates :: "json list \<Rightarrow> hkey list \<Rightarrow> py_error + json list" where
  "unique_candidates [] seen = Inr []"
| "unique_candidates (candidate # rest) seen =
     ebind (hash_key candidate) (\<lambda>k.
       if k \<in> set seen then unique_candidates rest seen
       else ebind (unique_candidates rest (k # seen)) (\<lambda>r. Inr (candidate # r)))"

function str_replace :: "string \<Rightarrow> string \<Rightarrow> string \<Rightarrow> string" where
  "str_replace old new s =
     (if old = [] then new @ concat (map (\<lambda>c. c # new) s)
      else if s = [] then []
      else if prefix old s then new @ str_replace old new (drop (length old) s)
      else hd s # str_replace old new (tl s))"
  by pat_completeness auto
termination
  by (relation "measure (\<lambda>(old, new, s). length s)") auto

definition is_digit_char :: "char \<Rightarrow> bool" where
  "is_digit_char c \<longleftrightarrow> c \<in> set (''0123456789'' @ [CHR 0xB2, CHR 0xB3, CHR 0xB9])"

definition isdigit :: "string \<Rightarrow> bool" where
  "isdigit s \<longleftrightarrow> s \<noteq> [] \<and> list_all is_digit_char s"

definition is_generic_name :: "string \<Rightarrow> bool" where
  "is_generic_name c \<longleftrightarrow> prefix ''Table'' c \<and> isdigit (str_replace ''Table'' [] c)"

definition select_among :: "string list \<Rightarrow> string" where
  "select_among unique =
     (let custom_names = filter (\<lambda>c. \<not> is_generic_name c) unique;
          generic_names = filter is_generic_name unique
      in if custom_names \<noteq> [] then hd (sort custom_names)
         else if generic_names \<noteq> [] then hd (sort generic_names)
         else hd unique)"

definition select_table_id :: "json list \<Rightarrow> py_error + json" where
  "select_table_id candidates =
     (if candidates = [] then Inr JNull
      else ebind (unique_candidates candidates []) (\<lambda>unique.
        if length unique = 1 then Inr (hd unique)
        else ebind (efold (\<lambda>c names. ebind (as_str c) (\<lambda>s. Inr (names @ [s]))) unique [])
               (\<lambda>names. Inr (JStr (select_among names)))))"

definition resolve_table_ids :: "json \<Rightarrow> py_error + (string \<times> json) list" where
  "resolve_table_ids template_data =
     ebind (find_axis_uuids template_data []) (\<lambda>lk.
     ebind (efold (match_table lk) (find_table_data_options template_data)
              \<lparr>m_cnv = [], m_breakend = [], m_region = []\<rparr>) (\<lambda>m.
     ebind (select_table_id (m_cnv m)) (\<lambda>cnv_id.
     ebind (select_table_id (m_breakend m)) (\<lambda>breakend_id.
     ebind (select_table_id (m_region m)) (\<lambda>region_id.
       Inr [(''cnv'', cnv_id), (''breakend'', breakend_id), (''region'', region_id)])))))"

subsection \<open>Template Resolver: import algorithms of \<open>_parse_template_file\<close>\<close>

text \<open>
  \<open>str_lower\<close> is \<open>str.lower\<close> on code points below 256: the letters \<open>A\<close> to \<open>Z\<close> and
  \<open>0xC0\<close> to \<open>0xDE\<close> without \<open>0xD7\<close> move up by 32. \<open>'import' in name\<close> is \<open>sublist\<close>.
  \<open>update_flags\<close> is the \<open>if\<close>/\<open>elif\<close> chain on one algorithm name, \<open>check_algorithm\<close> the
  body of the loop over the algorithms of a data tree, \<open>check_data_tree\<close> the body of the
  loop over the data trees, and \<open>data_trees_of\<close> the five \<open>get\<close> calls that lead to them.
\<close>

definition str_lower :: "string \<Rightarrow> string" where
  "str_lower s =
     map (\<lambda>c. if (CHR ''A'' \<le> c \<and> c \<le> CHR ''Z'')
                 \<or> (CHR 0xC0 \<le> c \<and> c \<le> CHR 0xDE \<and> c \<noteq> CHR 0xD7)
              then char_of (of_char c + (32::nat)) else c) s"

type_synonym flags = "bool \<times> bool \<times> bool"

definition update_flags :: "string \<Rightarrow> flags \<Rightarrow> flags" where
  "update_flags alg_name fl =
     (case fl of (cnv, breakend, region) \<Rightarrow>
        let name = str_lower alg_name in
        if sublist ''import'' name then
          (if sublist ''cnv'' name then (True, breakend, region)
           else if sublist ''breakend'' name \<or> sublist ''bnd'' name then (cnv, True, region)
           else if sublist ''region'' name then (cnv, breakend, True)
           else fl)
        else fl)"

definition algorithm_name :: "json \<Rightarrow> py_error + string" where
  "algorithm_name algorithm =
     ebind (py_get algorithm ''fields'' (JObj [])) (\<lambda>alg_fields.
     ebind (py_get alg_fields ''algName'' (JStr [])) as_str)"

definition check_algorithm :: "json \<Rightarrow> flags \<Rightarrow> py_error + flags" where
  "check_algorithm algorithm fl =
     ebind (algorithm_name algorithm) (\<lambda>alg_name. Inr (update_flags alg_name fl))"

definition tree_algorithms :: "json \<Rightarrow> py_error + json list" where
  "tree_algorithms data_tree =
     ebind (py_get data_tree ''fields'' (JObj [])) (\<lambda>tree_fields.
     ebind (py_get tree_fields ''algorithms'' (JArr [])) py_iter)"

definition check_data_tree :: "json \<Rightarrow> flags \<Rightarrow> py_error + flags" where
  "check_data_tree data_tree fl =
     ebind (tree_algorithms data_tree) (\<lambda>algorithms. efold check_algorithm algorithms fl)"

definition data_trees_of :: "json \<Rightarrow> py_error + json" where
  "data_trees_of template_data =
     ebind (py_get template_data ''project'' (JObj [])) (\<lambda>project.
     ebind (py_get project ''fields'' (JObj [])) (\<lambda>fields.
     ebind (py_get fields ''dal'' (JObj [])) (\<lambda>dal.
     ebind (py_get dal ''fields'' (JObj [])) (\<lambda>dal_fields.
       py_get dal_fields ''dataTrees'' (JArr [])))))"

definition resolve_import_algorithms :: "json \<Rightarrow> py_error + (string \<times> bool) list" where
  "resolve_import_algorithms template_data =
     ebind (data_trees_of template_data) (\<lambda>data_trees.
     ebind (py_iter data_trees) (\<lambda>trees.
     ebind (efold check_data_tree trees (False, False, False)) (\<lambda>fl.
       case fl of (cnv, breakend, region) \<Rightarrow>
         Inr [(''cnv'', cnv), (''breakend'', breakend), (''region'', region)])))"

subsection \<open>Template Resolver: \<open>_parse_template_file\<close>\<close>

text \<open>
  The argument of \<open>parse_template_file\<close> is the outcome of opening the file and of
  \<open>json.load\<close>: an exception or the document. \<open>parse_template_data\<close> is the rest of the
  \<open>try\<close> block, which resolves the table identifiers first and the import algorithms
  second; \<open>except Exception\<close> turns every exception into the dictionary of line 213. A
  table identifier is a JSON value, \<open>JNull\<close> being \<open>None\<close>.
\<close>

record template_info =
  import_algorithms :: "(string \<times> bool) list"
  table_ids :: "(string \<times> json) list"

definition parse_template_data :: "json \<Rightarrow> py_error + template_info" where
  "parse_template_data template_data =
     ebind (resolve_table_ids template_data) (\<lambda>ids.
     ebind (resolve_import_algorithms template_data) (\<lambda>algs.
       Inr \<lparr>import_algorithms = algs, table_ids = ids\<rparr>))"

definition parse_template_file :: "py_error + json \<Rightarrow> template_info" where
  "parse_template_file loaded =
     (case ebind loaded parse_template_data of
        Inr info \<Rightarrow> info
      | Inl e \<Rightarrow>
          \<lparr>import_algorithms = [(''cnv'', False), (''breakend'', False), (''region'', False)],
           table_ids = [(''cnv'', JNull), (''breakend'', JNull), (''region'', JNull)]\<rparr>)"

subsection \<open>Template Resolver: the notions of the specification\<close>

text \<open>
  The path of keys that leads from the document to the data trees, followed without
  defaults: it is \<open>Found\<close> with the value it leads to, \<open>Missing\<close> when a dict on the way
  lacks the next key, and \<open>Malformed\<close> when a value on the way (the document included) is
  no dict. The algorithm records reached through the path are the items of the
  \<open>algorithms\<close> lists of the data trees, and the name of a record is its \<open>algName\<close>
  string. A name contains a word case-insensitively when its lower-case form contains
  it. \<open>degraded\<close> is the result with every flag false and every identifier absent.
\<close>

datatype path_result = Found json | Missing | Malformed

fun follow_path :: "json \<Rightarrow> string list \<Rightarrow> path_result" where
  "follow_path node [] = Found node"
| "follow_path (JObj kvs) (key # keys) =
     (case map_of kvs key of None \<Rightarrow> Missing | Some child \<Rightarrow> follow_path child keys)"
| "follow_path node (key # keys) = Malformed"

definition data_trees_path :: "string list" where
  "data_trees_path = [''project'', ''fields'', ''dal'', ''fields'', ''dataTrees'']"

definition tree_records :: "json \<Rightarrow> json list" where
  "tree_records data_tree =
     (case follow_path data_tree [''fields'', ''algorithms''] of
        Found (JArr algorithms) \<Rightarrow> algorithms
      | _ \<Rightarrow> [])"

definition reached_records :: "json \<Rightarrow> json list" where
  "reached_records template_data =
     (case follow_path template_data data_trees_path of
        Found (JArr trees) \<Rightarrow> concat (map tree_records trees)
      | _ \<Rightarrow> [])"

definition record_name :: "json \<Rightarrow> string" where
  "record_name algorithm =
     (case follow_path algorithm [''fields'', ''algName''] of
        Found (JStr name) \<Rightarrow> name
      | _ \<Rightarrow> [])"

definition contains_ci :: "string \<Rightarrow> string \<Rightarrow> bool" where
  "contains_ci word name \<longleftrightarrow> sublist word (str_lower name)"


text \<open>
  The pattern of a generic name as the specification words it, \<open>Table\<close> followed by
  digits, and the selection among several distinct candidate names by that pattern.
\<close>

definition generic_pattern :: "string \<Rightarrow> bool" where
  "generic_pattern c \<longleftrightarrow>
     take 5 c = ''Table'' \<and> drop 5 c \<noteq> [] \<and> list_all (\<lambda>d. d \<in> set ''0123456789'') (drop 5 c)"

definition select_by_pattern :: "string list \<Rightarrow> string" where
  "select_by_pattern unique =
     (let custom_names = filter (\<lambda>c. \<not> generic_pattern c) unique;
          generic_names = filter generic_pattern unique
      in if custom_names \<noteq> [] then hd (sort custom_names) else hd (sort generic_names))"

text \<open>
  \<open>get_chain\<close> is a chain of \<open>get\<close> calls along a list of keys, with an empty dict as the
  default of every call but the last, whose default is an empty list; \<open>data_trees_of\<close> is
  the chain along \<open>data_trees_path\<close>.
\<close>

fun get_chain :: "json \<Rightarrow> string list \<Rightarrow> py_error + json" where
  "get_chain node [] = Inr node"
| "get_chain node [key] = py_get node key (JArr [])"
| "get_chain node (key # keys) = ebind (py_get node key (JObj [])) (\<lambda>child. get_chain child keys)"

text \<open>
  Template documents: an axis, a table that refers to axes, an algorithm record, and a
  project that holds one data tree with the given algorithm records.
\<close>

definition axis_uuid_option :: "string \<Rightarrow> string \<Rightarrow> json" where
  "axis_uuid_option uuid axis_type =
     JObj [(''className'', JStr ''AxisUuidOptions''),
           (''fields'', JObj [(''uuid'', JStr uuid), (''axisType'', JStr axis_type)])]"

definition table_data_option :: "string \<Rightarrow> string list \<Rightarrow> json" where
  "table_data_option user_id uuids =
     JObj [(''className'', JStr ''VSTableDataOptions''),
           (''fields'', JObj [(''userId'', JStr user_id),
                             (''axisUuidList'', JArr (map JStr uuids))])]"

definition algorithm_record :: "string \<Rightarrow> json" where
  "algorithm_record name = JObj [(''fields'', JObj [(''algName'', JStr name)])]"

definition project_with :: "json list \<Rightarrow> json" where
  "project_with algorithms =
     JObj [(''fields'', JObj [(''dal'', JObj [(''fields'', JObj [(''dataTrees'',
        JArr [JObj [(''fields'', JObj [(''algorithms'', JArr algorithms)])]])])])])]"

definition cnv_tables :: "string list \<Rightarrow> json" where
  "cnv_tables names =
     JObj [(''axisUuids'', JArr [axis_uuid_option ''u1'' ''CNV'']),
           (''tables'', JArr (map (\<lambda>n. table_data_option n [''u1'']) names))]"

definition repeated_prefix_template :: json where
  "repeated_prefix_template =
     JObj [(''project'', project_with []), (''view'', cnv_tables [''Zebra'', ''Table1Table2''])]"

definition cnv_region_template :: json where
  "cnv_region_template = JObj [(''project'', project_with [algorithm_record ''Import CNV Regions''])]"


definition import_template :: json where
  "import_template =
     JObj [(''project'', project_with
              [algorithm_record ''Import CNV Regions'', algorithm_record ''BND Import'',
               algorithm_record ''Annotate Regions'']),
           (''view'', cnv_tables [''Table2'', ''Table1''])]"



section \<open>Properties\<close>

subsection \<open>CNV classification\<close>

lemma round_half_even_near: "\<bar>x - of_int (round_half_even x)\<bar> \<le> 1 / 2"
proof -
  have lo: "of_int \<lfloor>x\<rfloor> \<le> x" and hi: "x < of_int \<lfloor>x\<rfloor> + 1"
    by linarith+
  show ?thesis
    unfolding round_half_even_def Let_def using lo hi by auto
qed

lemma round_half_even_nearest: "\<bar>x - of_int (round_half_even x)\<bar> \<le> \<bar>x - of_int m\<bar>"
proof (cases "m \<le> \<lfloor>x\<rfloor>")
  case True
  then have "(of_int m :: rat) \<le> of_int \<lfloor>x\<rfloor>" by simp
  moreover have "of_int \<lfloor>x\<rfloor> \<le> x" by simp
  ultimately have a: "\<bar>x - of_int m\<bar> \<ge> x - of_int \<lfloor>x\<rfloor>" by linarith
  have hi: "x < of_int \<lfloor>x\<rfloor> + 1" by linarith
  show ?thesis
    unfolding round_half_even_def Let_def using a hi by auto
next
  case False
  then have "\<lfloor>x\<rfloor> + 1 \<le> m" by simp
  then have "(of_int (\<lfloor>x\<rfloor> + 1) :: rat) \<le> of_int m" by (simp only: of_int_le_iff)
  then have m: "(of_int \<lfloor>x\<rfloor> :: rat) + 1 \<le> of_int m" by simp
  have hi: "x < of_int \<lfloor>x\<rfloor> + 1" by linarith
  have lo: "of_int \<lfloor>x\<rfloor> \<le> x" by simp
  from m hi have a: "\<bar>x - of_int m\<bar> \<ge> of_int \<lfloor>x\<rfloor> + 1 - x" by linarith
  show ?thesis
    unfolding round_half_even_def Let_def using a hi lo by auto
qed

lemma round_half_even_eval:
  assumes "of_int f \<le> x" and "x < of_int f + 1"
  shows "round_half_even x =
    (if x - of_int f < 1 / 2 then f
     else if 1 / 2 < x - of_int f then f + 1
     else if even f then f else f + 1)"
proof -
  have "\<lfloor>x\<rfloor> = f" using assms by (simp add: floor_unique)
  then show ?thesis by (simp add: round_half_even_def Let_def)
qed

text \<open>
  Claim C6. A finite copy-number value \<open>v\<close> is rounded to a nearest integer \<open>n\<close>
  (no integer is closer to \<open>v\<close>), and the state appended to the row is \<open>Normal\<close> for
  \<open>n = 2\<close>, \<open>Deletion\<close> for \<open>n = 0\<close>, \<open>Het Deletion\<close> for \<open>n = 1\<close>, \<open>Duplicate\<close>
  for \<open>n \<ge> 3\<close> and \<open>?\<close> for a negative \<open>n\<close>. The inputs 1.6 (as the decimal and as
  the double nearest to it), -1 and 3.0 give \<open>Normal\<close>, \<open>?\<close> and \<open>Duplicate\<close>.
\<close>

theorem cnv_classification:
  "\<exists>n. py_round (Finite v) = Inr n
       \<and> (\<forall>m. \<bar>v - of_int n\<bar> \<le> \<bar>v - of_int m\<bar>)
       \<and> cnv_row (Inr (Finite v)) = Appended (cnv_state n)
       \<and> (n = 2 \<longrightarrow> cnv_state n = ''Normal'')
       \<and> (n = 0 \<longrightarrow> cnv_state n = ''Deletion'')
       \<and> (n = 1 \<longrightarrow> cnv_state n = ''Het Deletion'')
       \<and> (n \<ge> 3 \<longrightarrow> cnv_state n = ''Duplicate'')
       \<and> (n < 0 \<longrightarrow> cnv_state n = ''?'')
       \<and> cnv_row (Inr (Finite (16 / 10))) = Appended ''Normal''
       \<and> cnv_row (Inr (Finite (7205759403792794 / 4503599627370496))) = Appended ''Normal''
       \<and> cnv_row (Inr (Finite (- 1))) = Appended ''?''
       \<and> cnv_row (Inr (Finite 3)) = Appended ''Duplicate''"
proof -
  have near: "\<forall>m. \<bar>v - of_int (round_half_even v)\<bar> \<le> \<bar>v - of_int m\<bar>"
    using round_half_even_nearest by blast
  have row: "cnv_row (Inr (Finite v)) = Appended (cnv_state (round_half_even v))"
    by (simp add: cnv_row_def)
  have ex1: "cnv_row (Inr (Finite (16 / 10))) = Appended ''Normal''"
    using round_half_even_eval [of 1 "16 / 10"] by (simp add: cnv_row_def cnv_state_def)
  have ex2: "cnv_row (Inr (Finite (7205759403792794 / 4503599627370496))) = Appended ''Normal''"
    using round_half_even_eval [of 1 "7205759403792794 / 4503599627370496"]
    by (simp add: cnv_row_def cnv_state_def)
  have ex3: "cnv_row (Inr (Finite (- 1))) = Appended ''?''"
    using round_half_even_eval [of "- 1" "- 1"] by (simp add: cnv_row_def cnv_state_def)
  have ex4: "cnv_row (Inr (Finite 3)) = Appended ''Duplicate''"
    using round_half_even_eval [of 3 3] by (simp add: cnv_row_def cnv_state_def)
  have st: "(n = 2 \<longrightarrow> cnv_state n = ''Normal'')
       \<and> (n = 0 \<longrightarrow> cnv_state n = ''Deletion'')
       \<and> (n = 1 \<longrightarrow> cnv_state n = ''Het Deletion'')
       \<and> (n \<ge> 3 \<longrightarrow> cnv_state n = ''Duplicate'')
       \<and> (n < 0 \<longrightarrow> cnv_state n = ''?'')" for n
    by (simp add: cnv_state_def)
  show ?thesis
    using near row ex1 ex2 ex3 ex4 st [of "round_half_even v"]
    by (intro exI [of _ "round_half_even v"]) (simp only: py_round.simps simp_thms)
qed

theorem cnv_classification_witness:
  "cnv_row (Inr (Finite (5 / 2))) = Appended ''Normal''"
proof -
  have r1: "round_half_even (5 / 2) = 2"
    using round_half_even_eval [of 2 "5 / 2"] by simp
  from cnv_classification [of "5 / 2"]
  obtain n where n: "py_round (Finite (5 / 2)) = Inr n"
    and row: "cnv_row (Inr (Finite (5 / 2))) = Appended (cnv_state n)"
    and two: "n = 2 \<longrightarrow> cnv_state n = ''Normal''"
    by blast
  from n r1 have "n = 2" by simp
  with row two show ?thesis by simp
qed

subsection \<open>Group Resolver: the partition invariant\<close>

lemma grp_inv_add:
  assumes "grp_inv s p0 U g p" "x \<notin> set p" "x \<in> U"
  shows "grp_inv s p0 U (set_add x g) (set_add x p)"
  using assms unfolding grp_inv_def set_add_def by auto

lemma scan_others_inv:
  "fst ` set sd' \<subseteq> U \<Longrightarrow> grp_inv s p0 U g p \<Longrightarrow>
   scan_others c sd' (g, p, q) = (g', p', q') \<Longrightarrow> grp_inv s p0 U g' p'"
proof (induction sd' arbitrary: g p q)
  case Nil
  then show ?case by simp
next
  case (Cons a sd')
  obtain o' md where a: "a = (o', md)" by (cases a)
  from Cons.prems(1) have sub: "fst ` set sd' \<subseteq> U" and oU: "o' \<in> U" by (auto simp: a)
  show ?case
  proof (cases "o' \<notin> set p \<and> c \<in> set md")
    case True
    then have "grp_inv s p0 U (set_add o' g) (set_add o' p)"
      using grp_inv_add [OF Cons.prems(2) _ oU] by simp
    moreover have "scan_others c sd' (set_add o' g, set_add o' p, q @ [o']) = (g', p', q')"
      using Cons.prems(3) True by (simp add: a)
    ultimately show ?thesis using Cons.IH [OF sub] by blast
  next
    case False
    then have "scan_others c sd' (g, p, q) = (g', p', q')"
      using Cons.prems(3) by (auto simp: a split: if_splits)
    then show ?thesis using Cons.IH [OF sub Cons.prems(2)] by blast
  qed
qed

lemma scan_own_inv:
  "set alls \<subseteq> U \<Longrightarrow> grp_inv s p0 U g p \<Longrightarrow>
   scan_own alls vs (g, p, q) = (g', p', q') \<Longrightarrow> grp_inv s p0 U g' p'"
proof (induction vs arbitrary: g p q)
  case Nil
  then show ?case by simp
next
  case (Cons v vs)
  show ?case
  proof (cases "v \<in> set alls \<and> v \<notin> set p")
    case True
    then have vU: "v \<in> U" using Cons.prems(1) by auto
    have "grp_inv s p0 U (set_add v g) (set_add v p)"
      using grp_inv_add [OF Cons.prems(2) _ vU] True by simp
    moreover have "scan_own alls vs (set_add v g, set_add v p, q @ [v]) = (g', p', q')"
      using Cons.prems(3) True by simp
    ultimately show ?thesis using Cons.IH [OF Cons.prems(1)] by blast
  next
    case False
    then have "scan_own alls vs (g, p, q) = (g', p', q')"
      using Cons.prems(3) by (auto split: if_splits)
    then show ?thesis using Cons.IH [OF Cons.prems(1) Cons.prems(2)] by blast
  qed
qed

lemma bfs_loop_inv:
  "fst ` set sd \<subseteq> U \<Longrightarrow> set alls \<subseteq> U \<Longrightarrow> grp_inv s p0 U (fst st) (fst (snd st)) \<Longrightarrow>
   bfs_loop sd alls st = (g', p', q') \<Longrightarrow> grp_inv s p0 U g' p'"
proof (induction sd alls st rule: bfs_loop.induct)
  case (1 sd alls g p)
  then show ?case by simp
next
  case (2 sd alls g p c q)
  obtain g1 p1 q1 where s1: "scan_others c sd (g, p, q) = (g1, p1, q1)"
    by (cases "scan_others c sd (g, p, q)") auto
  obtain g2 p2 q2 where s2: "scan_own alls (dict_get sd c []) (g1, p1, q1) = (g2, p2, q2)"
    by (cases "scan_own alls (dict_get sd c []) (g1, p1, q1)") auto
  have i1: "grp_inv s p0 U g1 p1"
    using scan_others_inv [OF "2.prems"(1) _ s1] "2.prems"(3) by simp
  have i2: "grp_inv s p0 U g2 p2"
    using scan_own_inv [OF "2.prems"(2) i1 s2] .
  have "bfs_loop sd alls (g2, p2, q2) = (g', p', q')"
    using "2.prems"(4) by (simp add: s1 s2)
  then show ?case
    using "2.IH" [OF "2.prems"(1) "2.prems"(2)] i2 by (simp add: s1 s2)
qed

lemma find_connected_samples_inv:
  assumes "fst ` set sd \<subseteq> U" "set alls \<subseteq> U" "s \<in> U" "s \<notin> set p0"
    and "find_connected_samples s sd alls p0 = (g, p')"
  shows "grp_inv s p0 U g p'"
proof -
  obtain g' p'' q' where b: "bfs_loop sd alls ([s], set_add s p0, [s]) = (g', p'', q')"
    by (cases "bfs_loop sd alls ([s], set_add s p0, [s])") auto
  have init: "grp_inv s p0 U [s] (set_add s p0)"
    using assms(3,4) by (auto simp: grp_inv_def set_add_def)
  have "grp_inv s p0 U g' p''"
    using bfs_loop_inv [OF assms(1,2) _ b] init by simp
  moreover have "g = g'" "p' = p''"
    using assms(5) unfolding find_connected_samples_def b by simp_all
  ultimately show ?thesis by simp
qed

lemma update_fresh: "k \<notin> fst ` set al \<Longrightarrow> AList.update k v al = al @ [(k, v)]"
  by (induction al) auto

lemma rel_inv_step:
  assumes r: "rel_inv U rel p" and g: "grp_inv s p U g p'"
  shows "rel_inv U (AList.update (Min (set g)) (sort g) rel) p'"
proof -
  let ?k = "Min (set g)"
  have ne: "set g \<noteq> {}" using g by (auto simp: grp_inv_def)
  have kg: "?k \<in> set g" using ne by (simp add: Min_in del: set_empty)
  have disj: "set g \<inter> set p = {}" using g by (simp add: grp_inv_def)
  have keys_in_p: "fst ` set rel \<subseteq> set p"
    using r unfolding rel_inv_def by fastforce
  have fresh: "?k \<notin> fst ` set rel" using kg disj keys_in_p by auto
  have upd: "AList.update ?k (sort g) rel = rel @ [(?k, sort g)]"
    using fresh by (rule update_fresh)
  have groups_in_p: "\<And>k' g'. (k', g') \<in> set rel \<Longrightarrow> set g' \<subseteq> set p"
    using r unfolding rel_inv_def by auto
  have pw: "set ga \<inter> set g' = {}"
    if a: "(k, ga) \<in> set (rel @ [(?k, sort g)])"
      and b: "(k', g') \<in> set (rel @ [(?k, sort g)])" and neq: "k \<noteq> k'"
    for k ga k' g'
  proof -
    consider "(k, ga) \<in> set rel" "(k', g') \<in> set rel"
      | "(k, ga) \<in> set rel" "g' = sort g"
      | "ga = sort g" "(k', g') \<in> set rel"
      | "k = ?k" "k' = ?k"
      using a b by auto
    then show ?thesis
    proof cases
      case 1
      then show ?thesis using r neq unfolding rel_inv_def by fastforce
    next
      case 2
      then show ?thesis using groups_in_p [of k ga] disj by auto
    next
      case 3
      then show ?thesis using groups_in_p [of k' g'] disj by auto
    next
      case 4
      then show ?thesis using neq by simp
    qed
  qed
  show ?thesis
    unfolding upd rel_inv_def
  proof (intro conjI)
    show "set p' = \<Union> (set ` snd ` set (rel @ [(?k, sort g)]))"
      using r g unfolding rel_inv_def grp_inv_def by auto
    show "distinct (map fst (rel @ [(?k, sort g)]))"
      using r fresh unfolding rel_inv_def by auto
    show "\<forall>(k, g) \<in> set (rel @ [(?k, sort g)]). k \<in> set g \<and> set g \<subseteq> U \<and> distinct g"
      using r g kg unfolding rel_inv_def grp_inv_def by auto
    show "\<forall>(k, ga) \<in> set (rel @ [(?k, sort g)]). \<forall>(k', g') \<in> set (rel @ [(?k, sort g)]).
            k \<noteq> k' \<longrightarrow> set ga \<inter> set g' = {}"
      using pw by blast
  qed
qed

lemma resolve_groups_inv:
  "fst ` set sd \<subseteq> U \<Longrightarrow> set alls \<subseteq> U \<Longrightarrow> set order \<subseteq> U \<Longrightarrow> rel_inv U rel p \<Longrightarrow>
   \<exists>p'. rel_inv U (resolve_groups sd alls order p rel) p' \<and> set order \<union> set p \<subseteq> set p'"
proof (induction order arbitrary: p rel)
  case Nil
  then show ?case by auto
next
  case (Cons s order)
  have sub: "set order \<subseteq> U" and sU: "s \<in> U" using Cons.prems(3) by auto
  show ?case
  proof (cases "s \<in> set p")
    case True
    then show ?thesis
      using Cons.IH [OF Cons.prems(1,2) sub Cons.prems(4)] by auto
  next
    case False
    obtain g p1 where f: "find_connected_samples s sd alls p = (g, p1)"
      by (cases "find_connected_samples s sd alls p") auto
    have gi: "grp_inv s p U g p1"
      using find_connected_samples_inv [OF Cons.prems(1,2) sU False f] .
    have ri: "rel_inv U (AList.update (Min (set g)) (sort g) rel) p1"
      using rel_inv_step [OF Cons.prems(4) gi] .
    from Cons.IH [OF Cons.prems(1,2) sub ri]
    obtain p' where p': "rel_inv U (resolve_groups sd alls order p1
        (AList.update (Min (set g)) (sort g) rel)) p'" "set order \<union> set p1 \<subseteq> set p'"
      by blast
    have "s \<in> set p1" "set p \<subseteq> set p1" using gi by (auto simp: grp_inv_def)
    then have "set (s # order) \<union> set p \<subseteq> set p'" using p'(2) by auto
    then show ?thesis using p'(1) False by (auto simp: f)
  qed
qed

lemma parse_row_keys:
  "fst ` set (fst st) = set (snd st) \<Longrightarrow>
   fst ` set (fst (parse_row row st)) = set (snd (parse_row row st))"
  by (auto simp: parse_row_def Let_def set_add_def dom_update split: list.splits)

lemma fold_parse_row_keys:
  "fst ` set (fst st) = set (snd st) \<Longrightarrow>
   fst ` set (fst (fold parse_row rows st)) = set (snd (fold parse_row rows st))"
  by (induction rows arbitrary: st) (simp_all add: parse_row_keys)

lemma parse_sample_file_keys:
  "parse_sample_file rows = Inr (sd, alls) \<Longrightarrow> fst ` set sd = set alls"
  using fold_parse_row_keys [of "([], [])" "tl rows"]
  by (auto simp: parse_sample_file_def split: list.splits)

lemma map_filter_map_of:
  "distinct (map fst rel) \<Longrightarrow> set ks \<subseteq> fst ` set rel \<Longrightarrow>
   List.map_filter (map_of rel) ks = map (\<lambda>k. the (map_of rel k)) ks"
proof (induction ks)
  case Nil
  then show ?case by (simp add: List.map_filter_simps)
next
  case (Cons k ks)
  then obtain v where "map_of rel k = Some v"
    by (metis (no_types, lifting) domD dom_map_of_conv_image_fst list.set_intros(1) subsetD)
  then show ?case using Cons by (simp add: List.map_filter_simps)
qed

lemma output_groups_props:
  assumes r: "rel_inv U rel p"
  shows "\<Union> (set ` set (output_sample_groups rel)) = set p"
    and "\<forall>i < length (output_sample_groups rel). \<forall>j < length (output_sample_groups rel).
           i \<noteq> j \<longrightarrow> set (output_sample_groups rel ! i) \<inter> set (output_sample_groups rel ! j) = {}"
proof -
  let ?ks = "sort (map fst rel)"
  have d: "distinct (map fst rel)" using r by (simp add: rel_inv_def)
  have ks: "set ?ks = fst ` set rel" "distinct ?ks" using d by auto
  have out: "output_sample_groups rel = map (\<lambda>k. the (map_of rel k)) ?ks"
    unfolding output_sample_groups_def using map_filter_map_of [OF d, of ?ks] ks by simp
  have entry: "\<And>k. k \<in> fst ` set rel \<Longrightarrow> (k, the (map_of rel k)) \<in> set rel"
    using d by (metis (no_types, lifting) imageE map_of_eq_Some_iff option.sel prod.collapse)
  have "set (output_sample_groups rel) = snd ` set rel"
  proof
    show "set (output_sample_groups rel) \<subseteq> snd ` set rel"
      using entry ks(1) by (force simp: out)
    show "snd ` set rel \<subseteq> set (output_sample_groups rel)"
    proof
      fix g assume "g \<in> snd ` set rel"
      then obtain k where kg: "(k, g) \<in> set rel" by auto
      then have "map_of rel k = Some g" using d by simp
      moreover have "k \<in> set ?ks" using kg ks(1) by force
      ultimately show "g \<in> set (output_sample_groups rel)" by (force simp: out)
    qed
  qed
  then show "\<Union> (set ` set (output_sample_groups rel)) = set p"
    using r by (simp add: rel_inv_def)
  show "\<forall>i < length (output_sample_groups rel). \<forall>j < length (output_sample_groups rel).
           i \<noteq> j \<longrightarrow> set (output_sample_groups rel ! i) \<inter> set (output_sample_groups rel ! j) = {}"
  proof (intro allI impI)
    fix i j
    assume i: "i < length (output_sample_groups rel)" and j: "j < length (output_sample_groups rel)"
      and ij: "i \<noteq> j"
    have li: "i < length ?ks" and lj: "j < length ?ks" using i j by (simp_all add: out)
    have neq: "?ks ! i \<noteq> ?ks ! j" using ks(2) li lj ij by (simp add: nth_eq_iff_index_eq)
    have ei: "(?ks ! i, output_sample_groups rel ! i) \<in> set rel"
      using entry [of "?ks ! i"] ks(1) li by (metis nth_map nth_mem out)
    have ej: "(?ks ! j, output_sample_groups rel ! j) \<in> set rel"
      using entry [of "?ks ! j"] ks(1) lj by (metis nth_map nth_mem out)
    show "set (output_sample_groups rel ! i) \<inter> set (output_sample_groups rel ! j) = {}"
      using r ei ej neq unfolding rel_inv_def by fastforce
  qed
qed

text \<open>
  Claim C1. In non-cohort mode the groups written for a metadata table form a partition
  of the Sample Set parsed from it, whatever the order in which the set of names is
  iterated: the union of the groups is the Sample Set, two groups at different positions
  of the output are disjoint, and every sample name is in exactly one group.
\<close>

theorem group_resolver_partition:
  assumes ord: "\<And>xs. set (set_order xs) = set xs"
    and parse: "parse_sample_file rows = Inr (sd, alls)"
  shows "\<exists>groups. find_sample_relationships set_order rows False = Inr groups
           \<and> \<Union> (set ` set groups) = set alls
           \<and> (\<forall>i < length groups. \<forall>j < length groups.
                 i \<noteq> j \<longrightarrow> set (groups ! i) \<inter> set (groups ! j) = {})
           \<and> (\<forall>s \<in> set alls. \<exists>!i. i < length groups \<and> s \<in> set (groups ! i))"
proof -
  let ?U = "set alls"
  let ?rel = "resolve_groups sd alls (set_order alls) [] []"
  let ?groups = "output_sample_groups ?rel"
  have keys: "fst ` set sd \<subseteq> ?U" using parse_sample_file_keys [OF parse] by simp
  have r0: "rel_inv ?U [] []" by (simp add: rel_inv_def)
  from resolve_groups_inv [OF keys _ _ r0, of alls "set_order alls"] ord
  obtain p' where r: "rel_inv ?U ?rel p'" and cover: "?U \<subseteq> set p'" by auto
  have "set p' \<subseteq> ?U"
  proof
    fix x assume "x \<in> set p'"
    then obtain k g where "(k, g) \<in> set ?rel" "x \<in> set g"
      using r unfolding rel_inv_def by auto
    then show "x \<in> ?U" using r unfolding rel_inv_def by blast
  qed
  with cover have pU: "set p' = ?U" by auto
  have res: "find_sample_relationships set_order rows False = Inr ?groups"
    by (simp add: find_sample_relationships_def parse)
  have un: "\<Union> (set ` set ?groups) = ?U"
    using output_groups_props(1) [OF r] pU by simp
  have dj: "\<forall>i < length ?groups. \<forall>j < length ?groups.
                 i \<noteq> j \<longrightarrow> set (?groups ! i) \<inter> set (?groups ! j) = {}"
    using output_groups_props(2) [OF r] .
  have ex1: "\<forall>s \<in> ?U. \<exists>!i. i < length ?groups \<and> s \<in> set (?groups ! i)"
  proof
    fix s assume "s \<in> ?U"
    then obtain g where "g \<in> set ?groups" "s \<in> set g" using un by auto
    then obtain i where i: "i < length ?groups" "s \<in> set (?groups ! i)"
      by (auto simp: in_set_conv_nth)
    show "\<exists>!i. i < length ?groups \<and> s \<in> set (?groups ! i)"
    proof (rule ex1I [of _ i])
      show "i < length ?groups \<and> s \<in> set (?groups ! i)" using i by simp
    next
      fix j assume j: "j < length ?groups \<and> s \<in> set (?groups ! j)"
      show "j = i"
      proof (rule ccontr)
        assume "j \<noteq> i"
        then have "set (?groups ! j) \<inter> set (?groups ! i) = {}" using dj i(1) j by blast
        then show False using i(2) j by auto
      qed
    qed
  qed
  show ?thesis using res un dj ex1 by blast
qed

theorem group_resolver_partition_witness:
  "(\<forall>xs :: string list. set (rev xs) = set xs)
   \<and> parse_sample_file example_table
       = Inr ([(''A'', [''D'']), (''B'', [''C'']), (''C'', []), (''D'', [''x''])],
              [''A'', ''B'', ''C'', ''D''])
   \<and> (\<exists>groups. find_sample_relationships rev example_table False = Inr groups
         \<and> \<Union> (set ` set groups) = set [''A'', ''B'', ''C'', ''D'']
         \<and> (\<forall>i < length groups. \<forall>j < length groups.
                i \<noteq> j \<longrightarrow> set (groups ! i) \<inter> set (groups ! j) = {})
         \<and> (\<forall>s \<in> set [''A'', ''B'', ''C'', ''D''].
                \<exists>!i. i < length groups \<and> s \<in> set (groups ! i)))"
proof -
  have ord: "set (rev xs) = set xs" for xs :: "string list" by simp
  have p: "parse_sample_file example_table
       = Inr ([(''A'', [''D'']), (''B'', [''C'']), (''C'', []), (''D'', [''x''])],
              [''A'', ''B'', ''C'', ''D''])"
    by code_simp
  show ?thesis
    using group_resolver_partition [of rev example_table, OF ord p] ord p by blast
qed

subsection \<open>Cohort mode and duplicate rows\<close>

lemma distinct_count_list_one: "distinct xs \<Longrightarrow> x \<in> set xs \<Longrightarrow> count_list xs x = 1"
  by (induction xs) auto

lemma map_filter_single: "List.map_filter (map_of [(k, v)]) [k] = [v]"
  by (simp add: List.map_filter_simps)

lemma parse_row_distinct:
  "distinct (snd st) \<Longrightarrow> distinct (map fst (fst st)) \<Longrightarrow>
   distinct (snd (parse_row row st)) \<and> distinct (map fst (fst (parse_row row st)))"
  by (auto simp: parse_row_def Let_def set_add_def distinct_update split: list.splits)

lemma fold_parse_row_distinct:
  "distinct (snd st) \<Longrightarrow> distinct (map fst (fst st)) \<Longrightarrow>
   distinct (snd (fold parse_row rows st)) \<and> distinct (map fst (fst (fold parse_row rows st)))"
proof (induction rows arbitrary: st)
  case Nil
  then show ?case by simp
next
  case (Cons r rows)
  show ?case using Cons.IH [of "parse_row r st"] parse_row_distinct [OF Cons.prems] by simp
qed

lemma parse_sample_file_distinct:
  "parse_sample_file rows = Inr (sd, alls) \<Longrightarrow> distinct alls \<and> distinct (map fst sd)"
  using fold_parse_row_distinct [of "([], [])" "tl rows"]
  by (auto simp: parse_sample_file_def split: list.splits)

lemma fold_parse_row_lookup:
  "n \<noteq> [] \<Longrightarrow>
   map_of (fst (fold parse_row body ([], []))) n =
     (if rows_named n body = [] then None
      else Some (row_metadata (tl (last (rows_named n body)))))"
proof (induction body rule: rev_induct)
  case Nil
  then show ?case by (simp add: rows_named_def)
next
  case (snoc r body)
  let ?st = "fold parse_row body ([], [])"
  have f: "fold parse_row (body @ [r]) ([], []) = parse_row r ?st" by simp
  show ?case
  proof (cases "r \<noteq> [] \<and> strip (hd r) = n")
    case True
    then obtain c0 rest where r: "r = c0 # rest" by (cases r) auto
    have "map_of (fst (parse_row r ?st)) n = Some (row_metadata rest)"
      using True snoc.prems by (simp add: r parse_row_def Let_def update_conv')
    moreover have "rows_named n (body @ [r]) = rows_named n body @ [r]"
      using True by (simp add: rows_named_def)
    moreover have "tl r = rest" by (simp add: r)
    ultimately show ?thesis unfolding f by simp
  next
    case False
    have "map_of (fst (parse_row r ?st)) n = map_of (fst ?st) n"
      using False by (auto simp: parse_row_def Let_def update_conv' split: list.splits)
    moreover have "rows_named n (body @ [r]) = rows_named n body"
      using False by (auto simp: rows_named_def)
    ultimately show ?thesis unfolding f using snoc.IH [OF snoc.prems] by simp
  qed
qed

lemma fold_parse_row_names:
  "set (snd (fold parse_row body ([], []))) = {strip (hd row) | row. row \<in> set body \<and> row \<noteq> [] \<and> strip (hd row) \<noteq> []}"
proof (induction body rule: rev_induct)
  case Nil
  then show ?case by simp
next
  case (snoc r body)
  let ?st = "fold parse_row body ([], [])"
  have f: "fold parse_row (body @ [r]) ([], []) = parse_row r ?st" by simp
  have "set (snd (parse_row r ?st)) =
        set (snd ?st) \<union> (if r \<noteq> [] \<and> strip (hd r) \<noteq> [] then {strip (hd r)} else {})"
    by (auto simp: parse_row_def Let_def set_add_def split: list.splits)
  then show ?case unfolding f using snoc.IH by auto
qed

text \<open>
  Claim C2, as the code has it. The claim says one group for every table; the code guards
  the cohort group with \<open>if all_samples\<close>, so a table whose Sample Set is empty yields
  no group at all.
\<close>

theorem cohort_empty_table_counterexample:
  "find_sample_relationships id [[''Sample'', ''Mother'', ''Father'']] True = Inr []"
  by code_simp

text \<open>
  Claim C2, amended. For every table that has a header row, cohort mode yields exactly
  one group when the Sample Set is not empty, and that group lists every sample of the
  Sample Set once, in sorted order, whatever the metadata; when the Sample Set is empty
  it yields no group.
\<close>

theorem cohort_single_group:
  assumes "parse_sample_file rows = Inr (sd, alls)"
  shows "(alls \<noteq> [] \<longrightarrow>
            (\<exists>g. find_sample_relationships set_order rows True = Inr [g]
                 \<and> set g = set alls \<and> distinct g \<and> sorted g))
         \<and> (alls = [] \<longrightarrow> find_sample_relationships set_order rows True = Inr [])"
proof -
  have d: "distinct alls" using parse_sample_file_distinct [OF assms] by simp
  have "find_sample_relationships set_order rows True
        = Inr (if alls \<noteq> [] then [sort alls] else [])"
    by (simp add: find_sample_relationships_def assms output_sample_groups_def
        List.map_filter_simps)
  then show ?thesis using d by simp
qed

theorem cohort_single_group_witness:
  "parse_sample_file example_table
       = Inr ([(''A'', [''D'']), (''B'', [''C'']), (''C'', []), (''D'', [''x''])],
              [''A'', ''B'', ''C'', ''D''])
   \<and> (\<exists>g. find_sample_relationships id example_table True = Inr [g]
          \<and> set g = set [''A'', ''B'', ''C'', ''D''] \<and> distinct g \<and> sorted g)"
proof -
  have p: "parse_sample_file example_table
       = Inr ([(''A'', [''D'']), (''B'', [''C'']), (''C'', []), (''D'', [''x''])],
              [''A'', ''B'', ''C'', ''D''])"
    by code_simp
  show ?thesis
    using cohort_single_group [OF p, of id] p by simp
qed

lemma sd_agree_refl: "sd_agree n sd sd"
  by (simp add: sd_agree_def list_all2_refl)

lemma sd_agree_keys: "sd_agree n sd1 sd2 \<Longrightarrow> map fst sd1 = map fst sd2"
  unfolding sd_agree_def by (induction sd1 sd2 rule: list_all2_induct) auto

lemma sd_agree_no_key: "sd_agree n sd1 sd2 \<Longrightarrow> n \<notin> fst ` set sd1 \<Longrightarrow> sd1 = sd2"
  unfolding sd_agree_def by (induction sd1 sd2 rule: list_all2_induct) (auto simp: prod_eq_iff)

lemma sd_agree_update: "sd_agree n sd1 sd2 \<Longrightarrow> sd_agree n (AList.update k v sd1) (AList.update k v sd2)"
  unfolding sd_agree_def by (induction sd1 sd2 rule: list_all2_induct) auto

lemma sd_agree_update_same:
  "sd_agree n sd1 sd2 \<Longrightarrow> distinct (map fst sd1) \<Longrightarrow>
   AList.update n v sd1 = AList.update n v sd2"
proof (induction sd1 arbitrary: sd2)
  case Nil
  then show ?case by (simp add: sd_agree_def)
next
  case (Cons a sd1)
  then obtain b sd2' where sd2: "sd2 = b # sd2'" and ab: "fst a = fst b"
    "fst a \<noteq> n \<longrightarrow> snd a = snd b" and rest: "sd_agree n sd1 sd2'"
    by (auto simp: sd_agree_def list_all2_Cons1)
  show ?case
  proof (cases "fst a = n")
    case True
    then have "n \<notin> fst ` set sd1" using Cons.prems(2) by auto
    then have "sd1 = sd2'" using sd_agree_no_key [OF rest] by simp
    then show ?thesis using True ab by (cases a; cases b) (simp add: sd2)
  next
    case False
    have "AList.update n v sd1 = AList.update n v sd2'"
      using Cons.IH [OF rest] Cons.prems(2) by simp
    then show ?thesis using False ab by (cases a; cases b) (simp add: sd2)
  qed
qed

lemma parse_row_agree: "st_agree n st1 st2 \<Longrightarrow> st_agree n (parse_row r st1) (parse_row r st2)"
  by (auto simp: st_agree_def parse_row_def Let_def sd_agree_update distinct_update
      split: list.splits)

lemma fold_parse_row_agree:
  "st_agree n st1 st2 \<Longrightarrow> st_agree n (fold parse_row rows st1) (fold parse_row rows st2)"
  by (induction rows arbitrary: st1 st2) (simp_all add: parse_row_agree)

lemma parse_row_agree_same:
  "st_agree n st1 st2 \<Longrightarrow> strip c = n \<Longrightarrow> n \<noteq> [] \<Longrightarrow>
   parse_row (c # m) st1 = parse_row (c # m) st2"
  using sd_agree_update_same [of n "fst st1" "fst st2"]
  by (auto simp: st_agree_def parse_row_def Let_def)

lemma parse_row_same_name:
  "strip c = n \<Longrightarrow> n \<noteq> [] \<Longrightarrow> distinct (map fst (fst st)) \<Longrightarrow>
   st_agree n (parse_row (c # m) st) (parse_row (c # m') st)"
proof -
  assume c: "strip c = n" and n: "n \<noteq> []" and d: "distinct (map fst (fst st))"
  have "sd_agree n (AList.update n v sd) (AList.update n v' sd)" for v v' and sd :: sample_data
    unfolding sd_agree_def by (induction sd) (auto simp: list_all2_refl)
  then show ?thesis
    using c n d by (simp add: st_agree_def parse_row_def Let_def distinct_update)
qed

lemma earlier_row_irrelevant:
  assumes c: "strip c0 = n" and n: "n \<noteq> []" and later: "rows_named n post \<noteq> []"
  shows "fold parse_row (pre @ [c0 # m0] @ post) ([], [])
         = fold parse_row (pre @ [c0 # m0'] @ post) ([], [])"
proof -
  from later obtain r where "r \<in> set (rows_named n post)" by (cases "rows_named n post") auto
  then have rin: "r \<in> set post" and rn: "r \<noteq> []" "strip (hd r) = n"
    by (auto simp: rows_named_def)
  from rin obtain mid post' where post: "post = mid @ r # post'" by (auto simp: in_set_conv_decomp)
  from rn obtain c1 m1 where r: "r = c1 # m1" and c1: "strip c1 = n" by (cases r) auto
  let ?st = "fold parse_row pre ([], [])"
  have d: "distinct (map fst (fst ?st))"
    using fold_parse_row_distinct [of "([], [])" pre] by simp
  have a0: "st_agree n (parse_row (c0 # m0) ?st) (parse_row (c0 # m0') ?st)"
    using parse_row_same_name [OF c n d] .
  have a1: "st_agree n (fold parse_row mid (parse_row (c0 # m0) ?st))
                       (fold parse_row mid (parse_row (c0 # m0') ?st))"
    using fold_parse_row_agree [OF a0] .
  have "parse_row (c1 # m1) (fold parse_row mid (parse_row (c0 # m0) ?st))
        = parse_row (c1 # m1) (fold parse_row mid (parse_row (c0 # m0') ?st))"
    using parse_row_agree_same [OF a1 c1 n] .
  then show ?thesis by (simp add: post r)
qed

text \<open>
  Claim C10. When a sample name \<open>n\<close> is in column 0 of one or more data rows, the parsed
  sample data holds for \<open>n\<close> the metadata values of the last such row, \<open>n\<close> is once in
  the Sample Set and once among the keys of the sample data, and the output of the Group
  Resolver does not depend on the metadata values of a row of \<open>n\<close> that a later row of
  \<open>n\<close> follows.
\<close>

theorem duplicate_rows_last_wins:
  assumes parse: "parse_sample_file (header # body) = Inr (sd, alls)"
    and n: "n \<noteq> []" and ex: "rows_named n body \<noteq> []"
  shows "map_of sd n = Some (row_metadata (tl (last (rows_named n body))))
         \<and> count_list alls n = 1
         \<and> length (filter (\<lambda>kv. fst kv = n) sd) = 1
         \<and> (\<forall>pre c0 m0 m0' post cohort.
               body = pre @ [c0 # m0] @ post \<and> strip c0 = n \<and> rows_named n post \<noteq> []
               \<longrightarrow> find_sample_relationships set_order (header # pre @ [c0 # m0'] @ post) cohort
                   = find_sample_relationships set_order (header # body) cohort)"
proof -
  have st: "fold parse_row body ([], []) = (sd, alls)"
    using parse by (simp add: parse_sample_file_def)
  have look: "map_of sd n = Some (row_metadata (tl (last (rows_named n body))))"
    using fold_parse_row_lookup [OF n, of body] ex by (simp add: st)
  have d: "distinct alls" "distinct (map fst sd)"
    using parse_sample_file_distinct [OF parse] by simp_all
  have keys: "fst ` set sd = set alls" using parse_sample_file_keys [OF parse] .
  have "n \<in> fst ` set sd" using look by (metis domI dom_map_of_conv_image_fst)
  then have mem: "n \<in> set alls" "n \<in> set (map fst sd)" using keys by auto
  have c1: "count_list alls n = 1"
    using d(1) mem(1) by (simp add: distinct_count_list_one)
  have "count_list (map fst sd) n = 1"
    using d(2) mem(2) by (simp add: distinct_count_list_one)
  moreover have "count_list (map fst sd) n = length (filter (\<lambda>kv. fst kv = n) sd)"
    by (induction sd) auto
  ultimately have c2: "length (filter (\<lambda>kv. fst kv = n) sd) = 1" by simp
  have inv: "find_sample_relationships set_order (header # pre @ [c0 # m0'] @ post) cohort
               = find_sample_relationships set_order (header # body) cohort"
    if "body = pre @ [c0 # m0] @ post" "strip c0 = n" "rows_named n post \<noteq> []"
    for pre c0 m0 m0' post cohort
  proof -
    have "parse_sample_file (header # pre @ [c0 # m0'] @ post)
          = parse_sample_file (header # pre @ [c0 # m0] @ post)"
      unfolding parse_sample_file_def
      using earlier_row_irrelevant [OF that(2) n that(3), of pre m0' m0] by simp
    then show ?thesis
      unfolding find_sample_relationships_def that(1) by simp
  qed
  show ?thesis using look c1 c2 inv by blast
qed

theorem duplicate_rows_last_wins_witness:
  "parse_sample_file example_table
       = Inr ([(''A'', [''D'']), (''B'', [''C'']), (''C'', []), (''D'', [''x''])],
              [''A'', ''B'', ''C'', ''D''])
   \<and> rows_named ''A'' (tl example_table) = [[''A'', ''B'', ''''], [''A'', ''D'']]
   \<and> map_of [(''A'', [''D'']), (''B'', [''C'']), (''C'', []), (''D'', [''x''])] ''A''
       = Some (row_metadata [''D''])
   \<and> count_list [''A'', ''B'', ''C'', ''D''] ''A'' = 1
   \<and> find_sample_relationships id
         (hd example_table # [] @ [''A'' # [''C'', ''zz'']] @ tl (tl example_table)) False
       = find_sample_relationships id example_table False"
proof -
  have p: "parse_sample_file (hd example_table # tl example_table)
       = Inr ([(''A'', [''D'']), (''B'', [''C'']), (''C'', []), (''D'', [''x''])],
              [''A'', ''B'', ''C'', ''D''])"
    by code_simp
  have r: "rows_named ''A'' (tl example_table) = [[''A'', ''B'', ''''], [''A'', ''D'']]"
    by code_simp
  have ne: "''A'' \<noteq> ([] :: string)" "rows_named ''A'' (tl example_table) \<noteq> []"
    by (simp_all add: r)
  have split: "tl example_table = [] @ [''A'' # [''B'', '''']] @ tl (tl example_table)"
    by (simp add: example_table_def)
  have post: "strip ''A'' = ''A''" "rows_named ''A'' (tl (tl example_table)) \<noteq> []"
    by code_simp+
  have whole: "hd example_table # tl example_table = example_table"
    by (simp add: example_table_def)
  note main = duplicate_rows_last_wins [OF p ne, of id]
  have inv: "find_sample_relationships id
         (hd example_table # [] @ [''A'' # [''C'', ''zz'']] @ tl (tl example_table)) False
       = find_sample_relationships id (hd example_table # tl example_table) False"
    using main split post by blast
  show ?thesis
    using main p r inv by (simp add: whole)
qed

subsection \<open>Manifest Merger\<close>

lemma map_fst_map_entry: "map fst (AList.map_entry k f al) = map fst al"
  by (induction al) auto

lemma fold_set_add: "fold set_add xs acc = acc @ dedup_first (filter (\<lambda>x. x \<notin> set acc) xs)"
proof (induction xs arbitrary: acc)
  case Nil
  then show ?case by simp
next
  case (Cons x xs)
  show ?case
  proof (cases "x \<in> set acc")
    case True
    then show ?thesis using Cons.IH [of acc] by (simp add: set_add_def)
  next
    case False
    have "filter (\<lambda>y. y \<notin> set (acc @ [x])) xs = filter (\<lambda>y. y \<noteq> x) (filter (\<lambda>y. y \<notin> set acc) xs)"
      by (induction xs) auto
    moreover have "dedup_first (filter P ys) = filter P (dedup_first ys)" for P and ys :: "'a list"
      by (induction ys) (auto simp: filter_filter intro: filter_cong)
    ultimately show ?thesis using False Cons.IH [of "acc @ [x]"] by (simp add: set_add_def)
  qed
qed

lemma dedup_first_set [simp]: "set (dedup_first xs) = set xs"
  by (induction xs) auto

lemma dedup_first_distinct [simp]: "distinct (dedup_first xs)"
  by (induction xs) auto

lemma dedup_first_append: "dedup_first (xs @ ys) = dedup_first xs @ dedup_first (filter (\<lambda>y. y \<notin> set xs) ys)"
proof (induction xs)
  case Nil
  then show ?case by simp
next
  case (Cons x xs)
  have c: "dedup_first (filter P zs) = filter P (dedup_first zs)" for P and zs :: "'a list"
    by (induction zs) (auto simp: filter_filter intro: filter_cong)
  have "filter (\<lambda>y. y \<noteq> x) (dedup_first (filter (\<lambda>y. y \<notin> set xs) ys))
        = dedup_first (filter (\<lambda>y. y \<notin> set (x # xs)) ys)"
    unfolding c [symmetric] by (simp add: conj_commute)
  then show ?case using Cons by simp
qed

lemma fold_set_add_dedup:
  "fold set_add ys (dedup_first xs) = dedup_first (xs @ ys)"
  by (simp add: fold_set_add dedup_first_append)

lemma wf_merged_map_entry:
  "(\<And>info. map fst (g info) = map fst info) \<Longrightarrow> wf_merged m \<Longrightarrow>
   wf_merged (AList.map_entry n g m)"
  unfolding wf_merged_def by (induction m) auto

lemma merged_list_map_entry:
  "merged_list (AList.map_entry n (AList.map_entry ft f) m) s t =
     (if s = n \<and> t = ft then map_option f (merged_list m s t) else merged_list m s t)"
  by (auto simp: merged_list_def map_of_map_entry split: option.splits)

lemma merged_list_merge_file_type:
  "merged_list (merge_file_type n info ft m) s t =
     (if s = n \<and> t = ft
      then map_option (fold set_add (dict_get info ft [])) (merged_list m s t)
      else merged_list m s t)"
  by (simp add: merge_file_type_def merged_list_map_entry)

lemma keys_merge_file_type: "fst ` set (merge_file_type n info ft m) = fst ` set m"
  by (simp add: merge_file_type_def dom_map_entry)

lemma wf_merge_file_type: "wf_merged m \<Longrightarrow> wf_merged (merge_file_type n info ft m)"
  unfolding merge_file_type_def by (rule wf_merged_map_entry) (simp_all add: map_fst_map_entry)

lemma fold_file_types:
  "merged_list (fold (merge_file_type n info) file_types m) s t =
     (if s = n \<and> t \<in> set file_types
      then map_option (fold set_add (dict_get info t [])) (merged_list m s t)
      else merged_list m s t)"
  by (auto simp: file_types_def merged_list_merge_file_type)

lemma fold_file_types_keys: "fst ` set (fold (merge_file_type n info) file_types m) = fst ` set m"
  by (simp add: file_types_def keys_merge_file_type)

lemma fold_file_types_wf: "wf_merged m \<Longrightarrow> wf_merged (fold (merge_file_type n info) file_types m)"
  by (simp add: file_types_def wf_merge_file_type)

lemma merged_list_empty_entry:
  "t \<in> set file_types \<Longrightarrow> map_of empty_entry t = Some []"
  by (auto simp: file_types_def empty_entry_def)

lemma keys_merge_sample: "fst ` set (merge_sample (n, info) m) = insert n (fst ` set m)"
  by (auto simp: merge_sample_def fold_file_types_keys dom_update)

lemma rep_merge_sample:
  assumes r: "rep m A"
    and B: "\<And>s t. B s t = A s t @ (if s = n then dict_get info t [] else [])"
  shows "rep (merge_sample (n, info) m) B"
proof -
  define m1 where "m1 = (if n \<in> fst ` set m then m else AList.update n empty_entry m)"
  have wf1: "wf_merged m1"
    unfolding m1_def using r by (auto simp: rep_def wf_merged_def update_fresh empty_entry_def file_types_def)
  have k1: "fst ` set m1 = insert n (fst ` set m)" by (auto simp: m1_def dom_update)
  have l1: "merged_list m1 s t = Some (dedup_first (A s t))"
    if "s \<in> insert n (fst ` set m)" "t \<in> set file_types" for s t
  proof (cases "s \<in> fst ` set m")
    case True
    then have "merged_list m s t = Some (dedup_first (A s t))" using r that(2) by (simp add: rep_def)
    moreover have "merged_list m1 s t = merged_list m s t"
      using True by (auto simp: m1_def merged_list_def update_conv')
    ultimately show ?thesis by simp
  next
    case False
    then have sn: "s = n" using that(1) by simp
    have "A s t = []" using r False that(2) by (simp add: rep_def)
    moreover have "merged_list m1 s t = Some []"
      using False sn merged_list_empty_entry [OF that(2)]
      by (simp add: m1_def merged_list_def update_conv')
    ultimately show ?thesis by simp
  qed
  have m': "merge_sample (n, info) m = fold (merge_file_type n info) file_types m1"
    by (simp add: merge_sample_def m1_def)
  show ?thesis
    unfolding rep_def
  proof (intro conjI allI ballI impI)
    show "wf_merged (merge_sample (n, info) m)"
      unfolding m' using wf1 by (rule fold_file_types_wf)
  next
    fix s t assume t: "t \<in> set file_types" and s: "s \<in> fst ` set (merge_sample (n, info) m)"
    then have s': "s \<in> insert n (fst ` set m)" by (simp add: keys_merge_sample)
    show "merged_list (merge_sample (n, info) m) s t = Some (dedup_first (B s t))"
      unfolding m' fold_file_types using l1 [OF s' t] t
      by (auto simp: B fold_set_add_dedup)
  next
    fix s t assume t: "t \<in> set file_types" and s: "s \<notin> fst ` set (merge_sample (n, info) m)"
    then have "s \<noteq> n" "s \<notin> fst ` set m" by (simp_all add: keys_merge_sample)
    then show "B s t = []" using r t by (simp add: B rep_def)
  qed
qed

lemma rep_fold_merge_sample:
  "rep m A \<Longrightarrow> (\<And>s t. B s t = A s t @ entries_paths s t ss) \<Longrightarrow>
   rep (fold merge_sample ss m) B \<and> fst ` set (fold merge_sample ss m) = fst ` set m \<union> fst ` set ss"
proof (induction ss arbitrary: m A)
  case Nil
  then have "B = A" by (auto simp: entries_paths_def fun_eq_iff)
  then show ?case using Nil by simp
next
  case (Cons e ss)
  obtain n info where e: "e = (n, info)" by (cases e)
  let ?A1 = "\<lambda>s t. A s t @ (if s = n then dict_get info t [] else [])"
  have r1: "rep (merge_sample (n, info) m) ?A1"
    using rep_merge_sample [OF Cons.prems(1)] by simp
  have B: "\<And>s t. B s t = ?A1 s t @ entries_paths s t ss"
    using Cons.prems(2) by (simp add: e entries_paths_def)
  from Cons.IH [OF r1 B] show ?case
    by (auto simp: e keys_merge_sample)
qed

lemma rep_merge_document:
  assumes "rep m A" and "\<And>s t. B s t = A s t @ document_paths s t d"
  shows "rep (merge_document d m) B
         \<and> fst ` set (merge_document d m) = fst ` set m \<union> document_samples d"
proof (cases d)
  case (Inl e)
  then have "B = A" using assms(2) by (auto simp: document_paths_def fun_eq_iff)
  then show ?thesis using assms(1) Inl by (simp add: merge_document_def document_samples_def)
next
  case (Inr data)
  let ?ss = "case samples data of None \<Rightarrow> [] | Some s \<Rightarrow> s"
  have "\<And>s t. B s t = A s t @ entries_paths s t ?ss"
    using assms(2) Inr by (simp add: document_paths_def entries_paths_def)
  from rep_fold_merge_sample [OF assms(1) this] show ?thesis
    using Inr by (simp add: merge_document_def document_samples_def)
qed

lemma rep_fold_merge_document:
  "rep m A \<Longrightarrow> (\<And>s t. B s t = A s t @ all_paths s t ds) \<Longrightarrow>
   rep (fold merge_document ds m) B
   \<and> fst ` set (fold merge_document ds m) = fst ` set m \<union> \<Union> (document_samples ` set ds)"
proof (induction ds arbitrary: m A)
  case Nil
  then have "B = A" by (auto simp: all_paths_def fun_eq_iff)
  then show ?case using Nil by simp
next
  case (Cons d ds)
  let ?A1 = "\<lambda>s t. A s t @ document_paths s t d"
  have r1: "rep (merge_document d m) ?A1"
    and k1: "fst ` set (merge_document d m) = fst ` set m \<union> document_samples d"
    using rep_merge_document [OF Cons.prems(1), of ?A1 d] by simp_all
  have B: "\<And>s t. B s t = ?A1 s t @ all_paths s t ds"
    using Cons.prems(2) by (simp add: all_paths_def)
  from Cons.IH [OF r1 B] show ?case by (auto simp: k1)
qed

text \<open>
  Claim C7. For every list of manifest documents, every sample that occurs in one of
  them and every file type, the merged list holds the paths of that sample and file type
  from all documents, each exactly once, in the order of their first occurrence over the
  documents as supplied; a sample that occurs in no document has no merged entry.
\<close>

theorem manifest_merge_dedup:
  "(s \<in> \<Union> (document_samples ` set json_files) \<and> t \<in> set file_types \<longrightarrow>
      (\<exists>paths. merged_list (merge_vspipeline_json_files json_files) s t = Some paths
         \<and> paths = dedup_first (all_paths s t json_files)
         \<and> set paths = set (all_paths s t json_files)
         \<and> distinct paths))
   \<and> (s \<notin> \<Union> (document_samples ` set json_files) \<longrightarrow>
        map_of (merge_vspipeline_json_files json_files) s = None)"
proof -
  have r0: "rep [] (\<lambda>s t. [])" by (simp add: rep_def wf_merged_def)
  have "rep (merge_vspipeline_json_files json_files) (\<lambda>s t. all_paths s t json_files)"
    and k: "fst ` set (merge_vspipeline_json_files json_files)
            = \<Union> (document_samples ` set json_files)"
    unfolding merge_vspipeline_json_files_def
    using rep_fold_merge_document [OF r0, of "\<lambda>s t. all_paths s t json_files" json_files]
    by simp_all
  then show ?thesis
    unfolding rep_def by (auto simp: map_of_eq_None_iff)
qed

theorem manifest_merge_dedup_witness:
  "''S1'' \<in> \<Union> (document_samples ` set example_documents)
   \<and> ''cnv'' \<in> set file_types
   \<and> all_paths ''S1'' ''cnv'' example_documents
       = [''/a/x.vcf'', ''/a/y.vcf'', ''/a/z.vcf'', ''/a/x.vcf'']
   \<and> merged_list (merge_vspipeline_json_files example_documents) ''S1'' ''cnv''
       = Some [''/a/x.vcf'', ''/a/y.vcf'', ''/a/z.vcf'']"
proof -
  have s: "''S1'' \<in> \<Union> (document_samples ` set example_documents)"
    by (simp add: example_documents_def document_samples_def)
  have t: "''cnv'' \<in> set file_types" by (simp add: file_types_def)
  have a: "all_paths ''S1'' ''cnv'' example_documents
       = [''/a/x.vcf'', ''/a/y.vcf'', ''/a/z.vcf'', ''/a/x.vcf'']"
    by (simp add: all_paths_def example_documents_def document_paths_def dict_get_def)
  have d: "dedup_first [''/a/x.vcf'', ''/a/y.vcf'', ''/a/z.vcf'', ''/a/x.vcf'']
       = [''/a/x.vcf'', ''/a/y.vcf'', ''/a/z.vcf'']"
    by simp
  show ?thesis
    using manifest_merge_dedup [of "''S1''" example_documents "''cnv''"] s t a d by simp
qed

subsection \<open>Manifest Store\<close>

lemma map_entry_id: "map_of al k = Some v \<Longrightarrow> f v = v \<Longrightarrow> AList.map_entry k f al = al"
  by (induction al) (auto split: if_splits)

lemma dedup_first_distinct_id: "distinct xs \<Longrightarrow> dedup_first xs = xs"
  by (induction xs) (auto simp: filter_id_conv)

lemma update_step:
  assumes ft: "file_type \<in> set file_types"
    and old: "staged_list fs s task file_type = Some old"
  shows "\<exists>fs1. update_vspipeline_json s p file_type task fs = (Completed, fs1)
           \<and> staged_list fs1 s task file_type = Some (set_add p old)
           \<and> stored_list fs1 s task file_type = Some (set_add p old)"
proof -
  let ?name = "json_filename s task"
  define fs1 where "fs1 = (case output_dir fs ?name of
                     Some d \<Rightarrow> fs\<lparr>scratch_dir := (scratch_dir fs)(?name \<mapsto> d)\<rparr>
                   | None \<Rightarrow> fs)"
  define data where "data = safe_read_json_file (scratch_dir fs1) ?name"
  define samples1 where "samples1 = (if s \<in> fst ` set (samples_of data) then samples_of data
                        else AList.update s empty_entry (samples_of data))"
  have sc: "scratch_dir fs1 ?name = (case output_dir fs ?name of Some d \<Rightarrow> Some d | None \<Rightarrow> scratch_dir fs ?name)"
    by (simp add: fs1_def split: option.splits)
  have l1: "merged_list samples1 s file_type = Some old"
  proof (cases "scratch_dir fs1 ?name")
    case None
    then have "samples_of data = []" by (simp add: data_def safe_read_json_file_def samples_of_def)
    moreover have "old = []" using old None sc by (simp add: staged_list_def Let_def)
    ultimately show ?thesis
      using merged_list_empty_entry [OF ft] by (simp add: samples1_def merged_list_def)
  next
    case (Some d)
    then have dd: "data = d" by (simp add: data_def safe_read_json_file_def)
    show ?thesis
    proof (cases "map_of (samples_of d) s")
      case None
      then have notin: "s \<notin> fst ` set (samples_of d)" by (simp add: map_of_eq_None_iff)
      have "old = []" using old Some sc None by (simp add: staged_list_def Let_def)
      then show ?thesis
        using notin merged_list_empty_entry [OF ft]
        by (simp add: samples1_def dd merged_list_def update_conv')
    next
      case (Some info)
      then have isin: "s \<in> fst ` set (samples_of d)"
        by (metis domI dom_map_of_conv_image_fst)
      have "map_of info file_type = Some old"
        using old \<open>scratch_dir fs1 ?name = Some d\<close> sc Some by (simp add: staged_list_def Let_def)
      then show ?thesis using isin Some by (simp add: samples1_def dd merged_list_def)
    qed
  qed
  define samples2 where "samples2 = AList.map_entry s (AList.map_entry file_type (set_add p)) samples1"
  define data' where "data' = data\<lparr>samples := Some samples2\<rparr>"
  define fs2 where "fs2 = \<lparr>output_dir = (output_dir fs1)(?name \<mapsto> data'),
                    scratch_dir = (scratch_dir fs1)(?name \<mapsto> data')\<rparr>"
  have upd: "update_vspipeline_json s p file_type task fs = (Completed, fs2)"
    using ft l1
    unfolding update_vspipeline_json_def Let_def fs2_def data'_def samples2_def samples1_def
      data_def fs1_def
    by (simp cong: if_cong option.case_cong)
  have l2: "merged_list samples2 s file_type = Some (set_add p old)"
    by (simp add: samples2_def merged_list_map_entry l1)
  have so: "samples_of data' = samples2" by (simp add: data'_def samples_of_def)
  have st: "stored_list fs2 s task file_type = Some (set_add p old)"
    by (simp add: stored_list_def fs2_def so l2)
  have sg: "staged_list fs2 s task file_type = Some (set_add p old)"
    using l2 by (simp add: staged_list_def fs2_def so merged_list_def split: option.splits)
  show ?thesis using upd st sg by blast
qed

lemma append_all_result:
  assumes ft: "file_type \<in> set file_types"
  shows "staged_list fs s task file_type = Some old \<Longrightarrow> ps \<noteq> [] \<Longrightarrow>
         \<exists>fs'. append_all s file_type task ps fs = (replicate (length ps) Completed, fs')
           \<and> stored_list fs' s task file_type = Some (fold set_add ps old)"
proof (induction ps arbitrary: fs old)
  case Nil
  then show ?case by simp
next
  case (Cons p ps)
  from update_step [OF ft Cons.prems(1), of p]
  obtain fs1 where u: "update_vspipeline_json s p file_type task fs = (Completed, fs1)"
    and sg: "staged_list fs1 s task file_type = Some (set_add p old)"
    and st: "stored_list fs1 s task file_type = Some (set_add p old)" by blast
  show ?case
  proof (cases "ps = []")
    case True
    then show ?thesis using u st by simp
  next
    case False
    from Cons.IH [OF sg False]
    obtain fs' where "append_all s file_type task ps fs1 = (replicate (length ps) Completed, fs')"
      "stored_list fs' s task file_type = Some (fold set_add ps (set_add p old))" by blast
    then show ?thesis using u by simp
  qed
qed

text \<open>
  Claim C8. With a single sequential writer and a valid file type: appending a path that
  is already in the stored list of the sample and file type completes and leaves the
  persisted documents unchanged; a sequence of appends of pairwise distinct paths
  completes, and the stored list is then the list the first append started from followed
  by the new paths, so that every appended path is in it, each new one exactly once, and
  no earlier entry is lost.
\<close>

theorem append_single_writer:
  assumes ft: "file_type \<in> set file_types"
  shows "(stored_list fs s task file_type = Some l \<and> p \<in> set l \<longrightarrow>
            (\<exists>fs1. update_vspipeline_json s p file_type task fs = (Completed, fs1)
               \<and> output_dir fs1 = output_dir fs
               \<and> stored_list fs1 s task file_type = Some l))
         \<and> (staged_list fs s task file_type = Some old \<and> distinct ps \<and> ps \<noteq> [] \<longrightarrow>
            (\<exists>fs' final. append_all s file_type task ps fs = (replicate (length ps) Completed, fs')
               \<and> stored_list fs' s task file_type = Some final
               \<and> final = old @ filter (\<lambda>q. q \<notin> set old) ps
               \<and> (\<forall>q \<in> set ps. q \<in> set final)
               \<and> (\<forall>q \<in> set ps. q \<notin> set old \<longrightarrow> count_list final q = 1)
               \<and> (distinct old \<longrightarrow> distinct final)))"
proof (intro conjI impI)
  assume a: "stored_list fs s task file_type = Some l \<and> p \<in> set l"
  let ?name = "json_filename s task"
  from a obtain d where d: "output_dir fs ?name = Some d"
    and ml: "merged_list (samples_of d) s file_type = Some l"
    by (auto simp: stored_list_def split: option.splits)
  from ml obtain info where info: "map_of (samples_of d) s = Some info" "map_of info file_type = Some l"
    by (auto simp: merged_list_def split: option.splits)
  have isin: "s \<in> fst ` set (samples_of d)" using info(1) by (metis domI dom_map_of_conv_image_fst)
  have sd: "samples d = Some (samples_of d)"
    using info(1) by (cases "samples d") (simp_all add: samples_of_def)
  have dsame: "d\<lparr>samples := Some (samples_of d)\<rparr> = d"
    using sd by (cases d) auto
  have e1: "AList.map_entry file_type (set_add p) info = info"
    using map_entry_id [OF info(2)] a by (simp add: set_add_def)
  have e2: "AList.map_entry s (AList.map_entry file_type (set_add p)) (samples_of d) = samples_of d"
    using map_entry_id [OF info(1), of "AList.map_entry file_type (set_add p)"] e1 by simp
  have "update_vspipeline_json s p file_type task fs
        = (Completed, \<lparr>output_dir = (output_dir fs)(?name \<mapsto> d),
                       scratch_dir = (scratch_dir fs)(?name \<mapsto> d)\<rparr>)"
    using ft d isin ml e2 dsame
    by (simp add: update_vspipeline_json_def Let_def safe_read_json_file_def)
  moreover have "(output_dir fs)(?name \<mapsto> d) = output_dir fs" using d by (rule map_upd_triv)
  ultimately show "\<exists>fs1. update_vspipeline_json s p file_type task fs = (Completed, fs1)
               \<and> output_dir fs1 = output_dir fs
               \<and> stored_list fs1 s task file_type = Some l"
    using a by (simp add: stored_list_def d ml)
next
  assume b: "staged_list fs s task file_type = Some old \<and> distinct ps \<and> ps \<noteq> []"
  from append_all_result [OF ft, of fs s task old ps] b
  obtain fs' where r: "append_all s file_type task ps fs = (replicate (length ps) Completed, fs')"
    "stored_list fs' s task file_type = Some (fold set_add ps old)" by blast
  have dd: "distinct (filter (\<lambda>q. q \<notin> set old) ps)" using b by simp
  have f: "fold set_add ps old = old @ filter (\<lambda>q. q \<notin> set old) ps"
    using dedup_first_distinct_id [OF dd] by (simp add: fold_set_add)
  have cnt: "\<forall>q \<in> set ps. q \<notin> set old \<longrightarrow> count_list (old @ filter (\<lambda>q. q \<notin> set old) ps) q = 1"
  proof (intro ballI impI)
    fix q assume q: "q \<in> set ps" "q \<notin> set old"
    then have "q \<in> set (filter (\<lambda>q. q \<notin> set old) ps)" by simp
    then have "count_list (filter (\<lambda>q. q \<notin> set old) ps) q = 1"
      using dd by (simp add: distinct_count_list_one)
    then show "count_list (old @ filter (\<lambda>q. q \<notin> set old) ps) q = 1" using q(2) by simp
  qed
  show "\<exists>fs' final. append_all s file_type task ps fs = (replicate (length ps) Completed, fs')
               \<and> stored_list fs' s task file_type = Some final
               \<and> final = old @ filter (\<lambda>q. q \<notin> set old) ps
               \<and> (\<forall>q \<in> set ps. q \<in> set final)
               \<and> (\<forall>q \<in> set ps. q \<notin> set old \<longrightarrow> count_list final q = 1)
               \<and> (distinct old \<longrightarrow> distinct final)"
    using r f cnt dd by auto
qed

theorem append_single_writer_witness:
  "''cnv'' \<in> set file_types
   \<and> stored_list example_fs ''S1'' ''hiphase'' ''cnv'' = Some [''/a/x.vcf'']
   \<and> (\<exists>fs1. update_vspipeline_json ''S1'' ''/a/x.vcf'' ''cnv'' ''hiphase'' example_fs = (Completed, fs1)
         \<and> output_dir fs1 = output_dir example_fs)
   \<and> (\<exists>fs'. append_all ''S1'' ''cnv'' ''hiphase'' [''/a/y.vcf'', ''/a/x.vcf'', ''/a/z.vcf''] example_fs
              = ([Completed, Completed, Completed], fs')
         \<and> stored_list fs' ''S1'' ''hiphase'' ''cnv'' = Some [''/a/x.vcf'', ''/a/y.vcf'', ''/a/z.vcf''])"
proof -
  have t: "''cnv'' \<in> set file_types" by (simp add: file_types_def)
  have s: "stored_list example_fs ''S1'' ''hiphase'' ''cnv'' = Some [''/a/x.vcf'']"
    by (simp add: stored_list_def example_fs_def samples_of_def merged_list_def)
  have g: "staged_list example_fs ''S1'' ''hiphase'' ''cnv'' = Some [''/a/x.vcf'']"
    by (simp add: staged_list_def example_fs_def samples_of_def)
  note main = append_single_writer [OF t, of example_fs "''S1''" "''hiphase''" "[''/a/x.vcf'']"
      "''/a/x.vcf''" "[''/a/x.vcf'']" "[''/a/y.vcf'', ''/a/x.vcf'', ''/a/z.vcf'']"]
  have p1: "\<exists>fs1. update_vspipeline_json ''S1'' ''/a/x.vcf'' ''cnv'' ''hiphase'' example_fs
                 = (Completed, fs1) \<and> output_dir fs1 = output_dir example_fs"
    using main s by auto
  have p2: "\<exists>fs'. append_all ''S1'' ''cnv'' ''hiphase'' [''/a/y.vcf'', ''/a/x.vcf'', ''/a/z.vcf''] example_fs
              = ([Completed, Completed, Completed], fs')
         \<and> stored_list fs' ''S1'' ''hiphase'' ''cnv'' = Some [''/a/x.vcf'', ''/a/y.vcf'', ''/a/z.vcf'']"
    using main g by (simp del: append_all.simps add: numeral_3_eq_3)
  show ?thesis using t s p1 p2 by blast
qed

subsection \<open>Batch Descriptor Generator\<close>

lemma import_block_commands:
  "filter (is_command name) (import_block name' available files tid) =
     (if name' = name \<and> available \<and> files \<noteq> []
      then [import_command name files tid] else [])"
  if "name \<in> {''update_cnv_import'', ''update_bnd_import'', ''update_region_import''}"
     "name' \<in> {''update_cnv_import'', ''update_bnd_import'', ''update_region_import''}"
  using that by (auto simp: import_block_def is_command_def import_command_def)

text \<open>
  Claim C5, as the code has it. The claim lets the command fall back to \<open>Table1\<close> exactly
  when no identifier was resolved; \<open>table_ids.get('cnv') or 'Table1'\<close> also falls back
  when the resolved identifier is the empty string.
\<close>

theorem table_id_fallback_counterexample:
  "map_of [(''cnv'', Some [])] ''cnv'' = Some (Some ([] :: string))
   \<and> generate_vsbatch_lines ''/t/x.vsproject-template'' [''A''] example_manifest
         [(''cnv'', True)] [(''cnv'', Some [])] True ! 2
       = ''update_cnv_import files='' @ dquote @ ''/a/x.cns'' @ dquote @ '','' @ dquote
           @ ''/a/y.cns'' @ dquote @ '' table_id='' @ dquote @ ''Table1'' @ dquote"
  by code_simp

lemma quoted_files_comma_quoted: "quoted_files files = comma_quoted files"
  unfolding quoted_files_def
  by (induction files rule: comma_quoted.induct) (simp_all add: dquote_def)

lemma group_files_concat:
  "group_files sample_group sample_data file_type =
     concat (map (\<lambda>s. case map_of sample_data s of
                          None \<Rightarrow> []
                        | Some info \<Rightarrow> (case map_of info file_type of
                                          None \<Rightarrow> [] | Some paths \<Rightarrow> paths))
                 sample_group)"
  unfolding group_files_def dict_get_def
  by (rule arg_cong [where f = concat], rule map_cong) (auto split: option.splits)

lemma algorithm_flag_map_of:
  "algorithm_flag algorithm_flags category
     \<longleftrightarrow> map_of algorithm_flags category = Some True"
  unfolding algorithm_flag_def dict_get_def by (auto split: option.splits)

lemma table_id_or_default_cases:
  "table_id_or_default resolved_ids category =
     (if map_of resolved_ids category \<in> {None, Some None, Some (Some [])} then ''Table1''
      else the (the (map_of resolved_ids category)))"
  unfolding table_id_or_default_def by (auto split: option.splits)

lemma import_command_text:
  "import_command name files table_id =
     name @ '' files='' @ comma_quoted files @ '' table_id='' @ [CHR 0x22] @ table_id
       @ [CHR 0x22]"
  unfolding import_command_def quoted_files_comma_quoted dquote_def by simp

text \<open>
  Claim C5, amended. For each of the categories cnv, breakend and region, the command
  sequence holds an import command of the category if and only if the availability flag
  is true and the group has a file of the category's type. Then it holds exactly one:
  the command name, \<open>files=\<close> with all those files in the order of the group, each
  between double quotes and separated by commas, and \<open>table_id=\<close> with the quoted table
  identifier, which is \<open>Table1\<close> when none was resolved or the resolved one is empty and
  the resolved identifier otherwise; the next line is \<open>task_wait\<close>.
\<close>

theorem import_commands:
  assumes cat: "(category, file_type, name) \<in> set categories"
    and lines: "lines = generate_vsbatch_lines template_file sample_group sample_data
                      algorithm_flags resolved_ids overwrite_project"
    and files: "files = concat (map (\<lambda>s. case map_of sample_data s of
                          None \<Rightarrow> []
                        | Some info \<Rightarrow> (case map_of info file_type of
                                          None \<Rightarrow> [] | Some paths \<Rightarrow> paths))
                 sample_group)"
    and available: "available \<longleftrightarrow> map_of algorithm_flags category = Some True"
    and table_id: "table_id =
          (if map_of resolved_ids category \<in> {None, Some None, Some (Some [])} then ''Table1''
           else the (the (map_of resolved_ids category)))"
    and command: "command = name @ '' files='' @ comma_quoted files @ '' table_id=''
                     @ [CHR 0x22] @ table_id @ [CHR 0x22]"
  shows "((\<exists>line \<in> set lines. is_command name line) \<longleftrightarrow> available \<and> files \<noteq> [])
         \<and> (available \<and> files \<noteq> [] \<longrightarrow>
              filter (is_command name) lines = [command]
              \<and> (\<exists>i. Suc i < length lines \<and> lines ! i = command
                     \<and> lines ! Suc i = ''task_wait''))"
proof -
  have names: "name \<in> {''update_cnv_import'', ''update_bnd_import'', ''update_region_import''}"
    using cat by (auto simp: categories_def)
  have files': "files = group_files sample_group sample_data file_type"
    by (simp only: files group_files_concat)
  have available': "available = algorithm_flag algorithm_flags category"
    by (simp only: available algorithm_flag_map_of)
  have table_id': "table_id = table_id_or_default resolved_ids category"
    by (simp only: table_id table_id_or_default_cases)
  have command': "command = import_command name files table_id"
    by (simp only: command import_command_text)
  define pre where "pre = [''project_create '' @ dquote @ ''AppData/Projects/''
      @ (if length sample_group < 6 then join ''_'' (sort sample_group)
         else hd sample_group @ ''_cohort'') @ dquote @ '' template='' @ dquote
      @ basename template_file @ dquote @ (if overwrite_project then '' overwrite=true'' else []),
      ''download_required_sources'']
     @ (if group_files sample_group sample_data ''multiverse'' \<noteq> []
        then [''import files='' @ quoted_files (group_files sample_group sample_data ''multiverse'')
                @ '' sample_fields_catalog=SampleCatalog'', ''task_wait'']
        else [])"
  define b1 where "b1 = import_block ''update_cnv_import'' (algorithm_flag algorithm_flags ''cnv'')
             (group_files sample_group sample_data ''cnv'') (table_id_or_default resolved_ids ''cnv'')"
  define b2 where "b2 = import_block ''update_bnd_import'' (algorithm_flag algorithm_flags ''breakend'')
             (group_files sample_group sample_data ''bnd'') (table_id_or_default resolved_ids ''breakend'')"
  define b3 where "b3 = import_block ''update_region_import'' (algorithm_flag algorithm_flags ''region'')
             (group_files sample_group sample_data ''region'') (table_id_or_default resolved_ids ''region'')"
  define post where "post = [''get_task_list'', ''project_save'', ''project_close'']"
  have L: "lines = pre @ b1 @ b2 @ b3 @ post"
    unfolding lines generate_vsbatch_lines_def Let_def pre_def b1_def b2_def b3_def post_def
    by simp
  have fpre: "filter (is_command name) pre = []"
    using names by (auto simp: pre_def is_command_def)
  have fpost: "filter (is_command name) post = []"
    using names by (auto simp: post_def is_command_def)
  let ?blk = "import_block name available files table_id"
  have fb: "filter (is_command name) (b1 @ b2 @ b3) = filter (is_command name) ?blk"
    using cat unfolding b1_def b2_def b3_def files' available' table_id'
    by (auto simp: categories_def import_block_commands)
  have fl: "filter (is_command name) lines
            = (if available \<and> files \<noteq> [] then [command] else [])"
    using names by (simp add: L fpre fpost fb [simplified] import_block_commands command')
  have ex: "(\<exists>line \<in> set lines. is_command name line) \<longleftrightarrow> available \<and> files \<noteq> []"
  proof -
    have "(\<exists>line \<in> set lines. is_command name line) \<longleftrightarrow> filter (is_command name) lines \<noteq> []"
      by (simp add: filter_empty_conv)
    then show ?thesis by (simp add: fl)
  qed
  have pos: "\<exists>i. Suc i < length lines \<and> lines ! i = command
                 \<and> lines ! Suc i = ''task_wait''" if c: "available \<and> files \<noteq> []"
  proof -
    have blk: "?blk = [command, ''task_wait'']"
      using c by (simp add: import_block_def command')
    obtain xs ys where "lines = xs @ ?blk @ ys"
    proof -
      consider "name = ''update_cnv_import''" | "name = ''update_bnd_import''"
        | "name = ''update_region_import''" using names by auto
      then show ?thesis
      proof cases
        case 1
        then have "b1 = ?blk" using cat unfolding b1_def files' available' table_id'
          by (auto simp: categories_def)
        then show ?thesis using that [of pre "b2 @ b3 @ post"] L by simp
      next
        case 2
        then have "b2 = ?blk" using cat unfolding b2_def files' available' table_id'
          by (auto simp: categories_def)
        then show ?thesis using that [of "pre @ b1" "b3 @ post"] L by simp
      next
        case 3
        then have "b3 = ?blk" using cat unfolding b3_def files' available' table_id'
          by (auto simp: categories_def)
        then show ?thesis using that [of "pre @ b1 @ b2" post] L by simp
      qed
    qed
    then have l: "lines = xs @ [command, ''task_wait''] @ ys"
      by (simp add: blk)
    show ?thesis
      by (rule exI [of _ "length xs"]) (simp add: l nth_append)
  qed
  show ?thesis using ex fl pos by simp
qed

theorem import_commands_witness:
  "(''breakend'', ''bnd'', ''update_bnd_import'') \<in> set categories
   \<and> map_of [(''cnv'', True), (''breakend'', True)] ''breakend'' = Some True
   \<and> filter (is_command ''update_bnd_import'')
         (generate_vsbatch_lines ''/t/x.vsproject-template'' [''B'', ''A'']
            [(''A'', [(''bnd'', [''/a/x.vcf'', ''/a/y.vcf''])])]
            [(''cnv'', True), (''breakend'', True)]
            [(''breakend'', Some ''Breakends'')] False)
       = [''update_bnd_import files='' @ [CHR 0x22] @ ''/a/x.vcf'' @ [CHR 0x22] @ '',''
            @ [CHR 0x22] @ ''/a/y.vcf'' @ [CHR 0x22] @ '' table_id='' @ [CHR 0x22]
            @ ''Breakends'' @ [CHR 0x22]]"
proof -
  have c: "(''breakend'', ''bnd'', ''update_bnd_import'') \<in> set categories"
    by (simp add: categories_def)
  show ?thesis
    using import_commands [OF c refl refl refl refl refl,
        of "''/t/x.vsproject-template''" "[''B'', ''A'']"
           "[(''A'', [(''bnd'', [''/a/x.vcf'', ''/a/y.vcf''])])]"
           "[(''cnv'', True), (''breakend'', True)]" "[(''breakend'', Some ''Breakends'')]" False]
      c by simp
qed

subsection \<open>Template Resolver\<close>

lemma ebind_Inr_iff: "ebind m f = Inr y \<longleftrightarrow> (\<exists>x. m = Inr x \<and> f x = Inr y)"
  by (cases m) (simp_all add: ebind_def)

lemma ebind_Inl: "ebind (Inl e) f = Inl e"
  by (simp add: ebind_def)

lemma ebind_Inr: "ebind (Inr x) f = f x"
  by (simp add: ebind_def)

lemma py_get_Inr:
  assumes "py_get node key dflt = Inr child"
  obtains kvs where "node = JObj kvs" "child = dict_get kvs key dflt"
  using assms by (cases node) simp_all

lemma get_chain_empty_object: "keys \<noteq> [] \<Longrightarrow> get_chain (JObj []) keys = Inr (JArr [])"
proof (induction keys)
  case Nil
  then show ?case by simp
next
  case (Cons key keys)
  then show ?case
    by (cases keys) (simp_all add: dict_get_def ebind_def)
qed

lemma data_trees_of_chain: "data_trees_of template_data = get_chain template_data data_trees_path"
  by (simp add: data_trees_of_def data_trees_path_def)

lemma get_chain_missing:
  "follow_path node keys = Missing \<Longrightarrow> get_chain node keys = Inr (JArr [])"
proof (induction keys arbitrary: node)
  case Nil
  then show ?case by simp
next
  case (Cons key keys)
  from Cons.prems obtain kvs where node: "node = JObj kvs"
    by (cases node) simp_all
  show ?case
  proof (cases "map_of kvs key")
    case None
    then show ?thesis
      using get_chain_empty_object [of keys]
      by (cases keys) (simp_all add: node dict_get_def ebind_def)
  next
    case (Some child)
    with Cons.prems node have m: "follow_path child keys = Missing" by simp
    then have "keys \<noteq> []" by auto
    then obtain k ks where keys: "keys = k # ks" by (cases keys) auto
    show ?thesis
      using Cons.IH [OF m] Some by (simp add: node keys dict_get_def ebind_def)
  qed
qed

lemma get_chain_malformed:
  "follow_path node keys = Malformed \<Longrightarrow> get_chain node keys = Inl AttributeError"
proof (induction keys arbitrary: node)
  case Nil
  then show ?case by simp
next
  case (Cons key keys)
  show ?case
  proof (cases node)
    case (JObj kvs)
    with Cons.prems obtain child where c: "map_of kvs key = Some child"
      and m: "follow_path child keys = Malformed"
      by (auto split: option.splits)
    then have "keys \<noteq> []" by auto
    then obtain k ks where keys: "keys = k # ks" by (cases keys) auto
    show ?thesis
      using Cons.IH [OF m] c by (simp add: JObj keys dict_get_def ebind_def)
  qed (cases keys; simp add: ebind_def)+
qed

lemma get_chain_found:
  "follow_path node keys = Found r \<Longrightarrow> get_chain node keys = Inr r"
proof (induction keys arbitrary: node)
  case Nil
  then show ?case by simp
next
  case (Cons key keys)
  from Cons.prems obtain kvs where node: "node = JObj kvs"
    by (cases node) simp_all
  with Cons.prems obtain child where c: "map_of kvs key = Some child"
    and m: "follow_path child keys = Found r"
    by (auto split: option.splits)
  show ?case
    using Cons.IH [OF m] c m by (cases keys) (simp_all add: node dict_get_def ebind_def)
qed

lemma update_flags_step:
  "update_flags n (c, b, r) =
     (c \<or> (contains_ci ''import'' n \<and> contains_ci ''cnv'' n),
      b \<or> (contains_ci ''import'' n \<and> \<not> contains_ci ''cnv'' n
             \<and> (contains_ci ''breakend'' n \<or> contains_ci ''bnd'' n)),
      r \<or> (contains_ci ''import'' n \<and> \<not> contains_ci ''cnv'' n
             \<and> \<not> contains_ci ''breakend'' n \<and> \<not> contains_ci ''bnd'' n
             \<and> contains_ci ''region'' n))"
  unfolding update_flags_def Let_def contains_ci_def by simp

lemma fold_update_flags:
  "fold update_flags names (c, b, r) =
     (c \<or> (\<exists>n \<in> set names. contains_ci ''import'' n \<and> contains_ci ''cnv'' n),
      b \<or> (\<exists>n \<in> set names. contains_ci ''import'' n \<and> \<not> contains_ci ''cnv'' n
                \<and> (contains_ci ''breakend'' n \<or> contains_ci ''bnd'' n)),
      r \<or> (\<exists>n \<in> set names. contains_ci ''import'' n \<and> \<not> contains_ci ''cnv'' n
                \<and> \<not> contains_ci ''breakend'' n \<and> \<not> contains_ci ''bnd'' n
                \<and> contains_ci ''region'' n))"
proof (induction names arbitrary: c b r)
  case Nil
  then show ?case by simp
next
  case (Cons n names)
  show ?case
    by (simp only: fold_simps o_apply update_flags_step Cons.IH set_simps bex_simps
          prod.inject disj_assoc)
qed

lemma algorithm_name_record:
  assumes "algorithm_name a = Inr n"
  shows "n = record_name a"
proof -
  from assms obtain f where f: "py_get a ''fields'' (JObj []) = Inr f"
    and n: "ebind (py_get f ''algName'' (JStr [])) as_str = Inr n"
    unfolding algorithm_name_def ebind_Inr_iff by auto
  from n obtain v where v: "py_get f ''algName'' (JStr []) = Inr v" and s: "as_str v = Inr n"
    unfolding ebind_Inr_iff by auto
  from s have vn: "v = JStr n" by (cases v) simp_all
  from f obtain kvs where a: "a = JObj kvs" and fd: "f = dict_get kvs ''fields'' (JObj [])"
    by (rule py_get_Inr)
  from v obtain kvs' where f': "f = JObj kvs'" and vd: "v = dict_get kvs' ''algName'' (JStr [])"
    by (rule py_get_Inr)
  show ?thesis
    using fd f' vd vn unfolding record_name_def a dict_get_def
    by (auto split: option.splits)
qed

lemma efold_check_algorithm:
  assumes "efold check_algorithm algs fl = Inr fl'"
  shows "fl' = fold update_flags (map record_name algs) fl
         \<and> (\<forall>a \<in> set algs. \<exists>kvs. a = JObj kvs)"
  using assms
proof (induction algs arbitrary: fl)
  case Nil
  then show ?case by simp
next
  case (Cons a algs)
  from Cons.prems obtain fl1 where 1: "check_algorithm a fl = Inr fl1"
    and 2: "efold check_algorithm algs fl1 = Inr fl'"
    by (auto simp: ebind_Inr_iff)
  from 1 obtain n where n: "algorithm_name a = Inr n" and fl1: "fl1 = update_flags n fl"
    unfolding check_algorithm_def ebind_Inr_iff by auto
  from n have "\<exists>kvs. a = JObj kvs"
    unfolding algorithm_name_def ebind_Inr_iff by (cases a) auto
  then show ?case
    using Cons.IH [OF 2] algorithm_name_record [OF n] fl1 by simp
qed

lemma tree_algorithms_records:
  assumes "tree_algorithms t = Inr algs" and "\<forall>a \<in> set algs. \<exists>kvs. a = JObj kvs"
  shows "algs = tree_records t"
proof -
  from assms(1) obtain f where f: "py_get t ''fields'' (JObj []) = Inr f"
    and n: "ebind (py_get f ''algorithms'' (JArr [])) py_iter = Inr algs"
    unfolding tree_algorithms_def ebind_Inr_iff by auto
  from n obtain v where v: "py_get f ''algorithms'' (JArr []) = Inr v"
    and s: "py_iter v = Inr algs"
    unfolding ebind_Inr_iff by auto
  from f obtain kvs where t: "t = JObj kvs" and fd: "f = dict_get kvs ''fields'' (JObj [])"
    by (rule py_get_Inr)
  from v obtain kvs' where f': "f = JObj kvs'"
    and vd: "v = dict_get kvs' ''algorithms'' (JArr [])"
    by (rule py_get_Inr)
  have va: "(case v of JArr xs \<Rightarrow> xs | _ \<Rightarrow> []) = algs"
    using s assms(2) by (cases v; cases algs) auto
  have "tree_records t = (case v of JArr xs \<Rightarrow> xs | _ \<Rightarrow> [])"
    using fd f' vd unfolding tree_records_def t dict_get_def
    by (auto split: option.splits json.splits)
  then show ?thesis using va by simp
qed

lemma efold_check_data_tree:
  assumes "efold check_data_tree trees fl = Inr fl'"
  shows "fl' = fold update_flags (map record_name (concat (map tree_records trees))) fl
         \<and> (\<forall>t \<in> set trees. \<exists>kvs. t = JObj kvs)"
  using assms
proof (induction trees arbitrary: fl)
  case Nil
  then show ?case by simp
next
  case (Cons t trees)
  from Cons.prems obtain fl1 where 1: "check_data_tree t fl = Inr fl1"
    and 2: "efold check_data_tree trees fl1 = Inr fl'"
    by (auto simp: ebind_Inr_iff)
  from 1 obtain algs where a: "tree_algorithms t = Inr algs"
    and e: "efold check_algorithm algs fl = Inr fl1"
    unfolding check_data_tree_def ebind_Inr_iff by auto
  from a have obj: "\<exists>kvs. t = JObj kvs"
    unfolding tree_algorithms_def ebind_Inr_iff by (cases t) auto
  have fl1: "fl1 = fold update_flags (map record_name algs) fl"
    and all: "\<forall>a \<in> set algs. \<exists>kvs. a = JObj kvs"
    using efold_check_algorithm [OF e] by simp_all
  have "algs = tree_records t" using tree_algorithms_records [OF a all] .
  then show ?case
    using Cons.IH [OF 2] fl1 obj by simp
qed

lemma data_trees_reached:
  assumes d: "data_trees_of doc = Inr dt" and i: "py_iter dt = Inr trees"
    and o: "\<forall>t \<in> set trees. \<exists>kvs. t = JObj kvs"
  shows "concat (map tree_records trees) = reached_records doc"
proof -
  have dt: "(case dt of JArr xs \<Rightarrow> xs | _ \<Rightarrow> []) = trees"
    using i o by (cases dt; cases trees) auto
  show ?thesis
  proof (cases "follow_path doc data_trees_path")
    case (Found r)
    then have "dt = r" using d get_chain_found [OF Found] by (simp add: data_trees_of_chain)
    then show ?thesis
      using dt Found unfolding reached_records_def by (auto split: json.splits)
  next
    case Missing
    then have "dt = JArr []" using d get_chain_missing [OF Missing]
      by (simp add: data_trees_of_chain)
    then show ?thesis using dt Missing unfolding reached_records_def by auto
  next
    case Malformed
    then show ?thesis using d get_chain_malformed [OF Malformed]
      by (simp add: data_trees_of_chain)
  qed
qed

lemma resolve_import_algorithms_flags:
  assumes "resolve_import_algorithms doc = Inr algs"
  shows "algs =
     [(''cnv'', \<exists>r \<in> set (reached_records doc).
          contains_ci ''import'' (record_name r) \<and> contains_ci ''cnv'' (record_name r)),
      (''breakend'', \<exists>r \<in> set (reached_records doc).
          contains_ci ''import'' (record_name r) \<and> \<not> contains_ci ''cnv'' (record_name r)
          \<and> (contains_ci ''breakend'' (record_name r) \<or> contains_ci ''bnd'' (record_name r))),
      (''region'', \<exists>r \<in> set (reached_records doc).
          contains_ci ''import'' (record_name r) \<and> \<not> contains_ci ''cnv'' (record_name r)
          \<and> \<not> contains_ci ''breakend'' (record_name r) \<and> \<not> contains_ci ''bnd'' (record_name r)
          \<and> contains_ci ''region'' (record_name r))]"
proof -
  from assms obtain dt trees fl where d: "data_trees_of doc = Inr dt"
    and i: "py_iter dt = Inr trees"
    and e: "efold check_data_tree trees (False, False, False) = Inr fl"
    and a: "(case fl of (cnv, breakend, region) \<Rightarrow>
         Inr [(''cnv'', cnv), (''breakend'', breakend), (''region'', region)]) = (Inr algs :: py_error + (string \<times> bool) list)"
    unfolding resolve_import_algorithms_def ebind_Inr_iff by blast
  have fl: "fl = fold update_flags (map record_name (concat (map tree_records trees)))
                  (False, False, False)"
    and o: "\<forall>t \<in> set trees. \<exists>kvs. t = JObj kvs"
    using efold_check_data_tree [OF e] by simp_all
  have r: "concat (map tree_records trees) = reached_records doc"
    using data_trees_reached [OF d i o] .
  show ?thesis
    using a unfolding fl r fold_update_flags by auto
qed



text \<open>
  Claim C3, at a template whose CNV axis is referred to by the two tables \<open>Zebra\<close> and
  \<open>Table1Table2\<close>. By the claim \<open>Table1Table2\<close> is a custom name, since it is not \<open>Table\<close>
  followed by digits, and it is the smallest custom name, so it is the one selected. The
  code removes every occurrence of \<open>Table\<close> before it tests for digits
  (\<open>c.replace('Table', '').isdigit()\<close>), so it takes \<open>Table1Table2\<close> for a generic name
  and selects \<open>Zebra\<close>. On the two examples of the claim the code selects what the claim
  says.
\<close>

theorem table_selection_repeated_prefix:
  "table_ids (parse_template_file (Inr repeated_prefix_template)) =
     [(''cnv'', JStr ''Zebra''), (''breakend'', JNull), (''region'', JNull)]
   \<and> select_table_id [JStr ''Zebra'', JStr ''Table1Table2''] = Inr (JStr ''Zebra'')
   \<and> select_by_pattern [''Zebra'', ''Table1Table2''] = ''Table1Table2''
   \<and> select_table_id [JStr ''Table1'', JStr ''Table2'', JStr ''MyCustomTable'']
       = Inr (JStr ''MyCustomTable'')
   \<and> select_table_id [JStr ''Table2'', JStr ''Table1''] = Inr (JStr ''Table1'')"
  by code_simp

text \<open>
  Claim C4, as the code has it. The claim sets each flag by its own condition, so a
  record named \<open>Import CNV Regions\<close>, whose name contains \<open>import\<close> and \<open>region\<close>, would set
  the region flag. The three tests are an \<open>if\<close>/\<open>elif\<close> chain: the name contains \<open>cnv\<close>, so
  only the cnv flag is set.
\<close>

theorem import_flags_counterexample:
  "reached_records cnv_region_template = [algorithm_record ''Import CNV Regions'']
   \<and> record_name (algorithm_record ''Import CNV Regions'') = ''Import CNV Regions''
   \<and> contains_ci ''import'' ''Import CNV Regions''
   \<and> contains_ci ''region'' ''Import CNV Regions''
   \<and> import_algorithms (parse_template_file (Inr cnv_region_template)) =
       [(''cnv'', True), (''breakend'', False), (''region'', False)]"
  by code_simp

text \<open>
  Claim C4, amended. When the resolution of a template document raises no exception,
  the result is returned as it is, and of the algorithm records reached through the path
  project, fields, dal, fields, dataTrees each sets at most one flag: the cnv flag is
  true if and only if the name of some record contains \<open>import\<close> and \<open>cnv\<close>; the breakend
  flag if and only if the name of some record contains \<open>import\<close>, not \<open>cnv\<close>, and
  \<open>breakend\<close> or \<open>bnd\<close>; the region flag if and only if the name of some record contains
  \<open>import\<close>, none of \<open>cnv\<close>, \<open>breakend\<close> and \<open>bnd\<close>, and \<open>region\<close>; all case-insensitively.
\<close>

theorem import_flags:
  assumes "parse_template_data template_data = Inr info"
  shows "parse_template_file (Inr template_data) = info
    \<and> import_algorithms info =
     [(''cnv'', \<exists>r \<in> set (reached_records template_data).
          contains_ci ''import'' (record_name r) \<and> contains_ci ''cnv'' (record_name r)),
      (''breakend'', \<exists>r \<in> set (reached_records template_data).
          contains_ci ''import'' (record_name r) \<and> \<not> contains_ci ''cnv'' (record_name r)
          \<and> (contains_ci ''breakend'' (record_name r) \<or> contains_ci ''bnd'' (record_name r))),
      (''region'', \<exists>r \<in> set (reached_records template_data).
          contains_ci ''import'' (record_name r) \<and> \<not> contains_ci ''cnv'' (record_name r)
          \<and> \<not> contains_ci ''breakend'' (record_name r) \<and> \<not> contains_ci ''bnd'' (record_name r)
          \<and> contains_ci ''region'' (record_name r))]"
proof -
  from assms obtain ids algs where "resolve_table_ids template_data = Inr ids"
    and a: "resolve_import_algorithms template_data = Inr algs"
    and info: "info = \<lparr>import_algorithms = algs, table_ids = ids\<rparr>"
    unfolding parse_template_data_def ebind_Inr_iff by auto
  have "parse_template_file (Inr template_data) = info"
    using assms by (simp add: parse_template_file_def ebind_def)
  then show ?thesis
    using resolve_import_algorithms_flags [OF a] info by simp
qed

theorem import_flags_witness:
  "parse_template_data import_template =
     Inr \<lparr>import_algorithms = [(''cnv'', True), (''breakend'', True), (''region'', False)],
          table_ids = [(''cnv'', JStr ''Table1''), (''breakend'', JNull), (''region'', JNull)]\<rparr>
   \<and> (\<exists>r \<in> set (reached_records import_template).
          contains_ci ''import'' (record_name r) \<and> \<not> contains_ci ''cnv'' (record_name r)
          \<and> (contains_ci ''breakend'' (record_name r) \<or> contains_ci ''bnd'' (record_name r)))
   \<and> \<not> (\<exists>r \<in> set (reached_records import_template).
          contains_ci ''import'' (record_name r) \<and> \<not> contains_ci ''cnv'' (record_name r)
          \<and> \<not> contains_ci ''breakend'' (record_name r) \<and> \<not> contains_ci ''bnd'' (record_name r)
          \<and> contains_ci ''region'' (record_name r))"
proof -
  have h: "parse_template_data import_template =
     Inr \<lparr>import_algorithms = [(''cnv'', True), (''breakend'', True), (''region'', False)],
          table_ids = [(''cnv'', JStr ''Table1''), (''breakend'', JNull), (''region'', JNull)]\<rparr>"
    by code_simp
  show ?thesis using import_flags [OF h] h by simp
qed




end
